theory Spec2Isabelle
  imports Main "HOL-Library.Word"
begin

unbundle bit_operations_syntax

section \<open>The RIFF/WAVE decoder of package wav\<close>

text \<open>
  A shallow embedding of the decoder in \<^verbatim>\<open>package wav\<close> (the Go text stored in
  \<^verbatim>\<open>src/gfx/internal/generate.sh\<close>, from \<^verbatim>\<open>type decoder struct\<close> to \<^verbatim>\<open>newDecoder\<close>).
  Machine integers are words of the width the Go type has, so every addition wraps as
  it does in Go. The read/write lock of the struct is left out: each operation is
  modelled as one atomic state transformer, which is what the lock enforces.
\<close>

subsection \<open>Machine integers and errors\<close>

type_synonym u8 = "8 word"
type_synonym u16 = "16 word"
type_synonym u32 = "32 word"
type_synonym u64 = "64 word"
type_synonym i16 = "16 word"
type_synonym i32 = "32 word"
type_synonym i64 = "64 word"

text \<open>
  The error values the decoder can return: \<^verbatim>\<open>audio.EOS\<close>, \<^verbatim>\<open>audio.ErrInvalidData\<close>,
  \<^verbatim>\<open>ErrUnsupported\<close>, the two errors of \<^verbatim>\<open>io.ReadFull\<close> on a source that runs dry, the
  error of a seek before the start of the source, and any other error value that the
  \<^verbatim>\<open>Seek\<close> method of a source returns.
\<close>

datatype error =
    EOS
  | ErrInvalidData
  | ErrUnsupported
  | IoEOF
  | IoErrUnexpectedEOF
  | ErrSeekNegative
  | OtherError string

text \<open>A Go call either returns or panics with a message.\<close>

datatype 'a outcome = Panic string | Return 'a

subsection \<open>Format codes\<close>

definition wave_FORMAT_PCM :: u16 where "wave_FORMAT_PCM = 0x0001"
definition wave_FORMAT_IEEE_FLOAT :: u16 where "wave_FORMAT_IEEE_FLOAT = 0x0003"
definition wave_FORMAT_ALAW :: u16 where "wave_FORMAT_ALAW = 0x0006"
definition wave_FORMAT_MULAW :: u16 where "wave_FORMAT_MULAW = 0x0007"
definition wave_FORMAT_EXTENSIBLE :: u16 where "wave_FORMAT_EXTENSIBLE = 0xFFFE"

lemmas wave_FORMAT_defs =
  wave_FORMAT_PCM_def wave_FORMAT_IEEE_FLOAT_def wave_FORMAT_ALAW_def
  wave_FORMAT_MULAW_def wave_FORMAT_EXTENSIBLE_def

subsection \<open>The byte source\<close>

text \<open>
  The \<^verbatim>\<open>io.Reader\<close> behind the decoder is a finite byte sequence with a read position;
  \<open>seekable\<close> says whether the value also implements \<^verbatim>\<open>io.ReadSeeker\<close>, and
  \<open>seek_error\<close> is the error, if any, with which its \<^verbatim>\<open>Seek\<close> method answers a request
  for an absolute offset (a file on a pipe, say, rejects every request). The fields
  \<^verbatim>\<open>d.r\<close> and \<^verbatim>\<open>d.rd\<close> of the struct are the same Go value, hence a single field
  in the model.
\<close>

record source =
  content :: "u8 list"
  pos :: nat
  seekable :: bool
  seek_error :: "i64 \<Rightarrow> error option"

definition no_seek_error :: "i64 \<Rightarrow> error option" where
  "no_seek_error off = None"

definition avail :: "source \<Rightarrow> u8 list" where
  "avail s = drop (pos s) (content s)"

text \<open>
  \<^verbatim>\<open>io.ReadFull(r, buf)\<close> with \<open>len(buf) = n\<close>: all \<open>n\<close> bytes, or \<^verbatim>\<open>io.EOF\<close> when
  nothing was left, or \<^verbatim>\<open>io.ErrUnexpectedEOF\<close> after a short read, which has consumed
  what was left.
\<close>

definition readFull :: "source \<Rightarrow> nat \<Rightarrow> (error + u8 list) \<times> source" where
  "readFull s n =
     (if n \<le> length (avail s) then (Inr (take n (avail s)), s\<lparr>pos := pos s + n\<rparr>)
      else if avail s = [] then (Inl IoEOF, s)
      else (Inl IoErrUnexpectedEOF, s\<lparr>pos := length (content s)\<rparr>))"

text \<open>
  \<^verbatim>\<open>rs.Seek(off, 0)\<close> of an \<^verbatim>\<open>io.Seeker\<close>: the source may answer with an error of its
  own; a position before the start is an error in any case; otherwise the source stands
  at the absolute position \<open>off\<close>. An error leaves the source where it was.
\<close>

definition seek_abs :: "source \<Rightarrow> i64 \<Rightarrow> error + source" where
  "seek_abs s off =
     (case seek_error s off of
        Some err \<Rightarrow> Inl err
      | None \<Rightarrow>
          if sint off < 0 then Inl ErrSeekNegative else Inr (s\<lparr>pos := nat (sint off)\<rparr>))"

text \<open>\<^verbatim>\<open>binary.LittleEndian.Uint16\<close>, \<^verbatim>\<open>Uint32\<close> and \<^verbatim>\<open>Uint64\<close>.\<close>

definition Uint16 :: "u8 list \<Rightarrow> u16" where
  "Uint16 b = ucast (b ! 0) OR push_bit 8 (ucast (b ! 1))"

definition Uint32 :: "u8 list \<Rightarrow> u32" where
  "Uint32 b = ucast (b ! 0) OR push_bit 8 (ucast (b ! 1)) OR push_bit 16 (ucast (b ! 2))
     OR push_bit 24 (ucast (b ! 3))"

definition Uint64 :: "u8 list \<Rightarrow> u64" where
  "Uint64 b = ucast (b ! 0) OR push_bit 8 (ucast (b ! 1)) OR push_bit 16 (ucast (b ! 2))
     OR push_bit 24 (ucast (b ! 3)) OR push_bit 32 (ucast (b ! 4)) OR push_bit 40 (ucast (b ! 5))
     OR push_bit 48 (ucast (b ! 6)) OR push_bit 56 (ucast (b ! 7))"

text \<open>The bytes of a chunk identifier such as \<^verbatim>\<open>"fmt "\<close>.\<close>

definition ascii :: "string \<Rightarrow> u8 list" where
  "ascii s = map (\<lambda>c. of_nat (of_char c)) s"

subsection \<open>The decoder state\<close>

record config =
  Channels :: nat
  SampleRate :: nat

record decoder =
  format :: u16
  bitsPerSample :: u16
  chunkSize :: u32
  currentCount :: u32
  dataChunkBegin :: i32
  rd :: source
  config :: "config option"

text \<open>
  \<^verbatim>\<open>advance\<close>: with a known chunk size the unsigned 32-bit byte counter grows by
  \<open>sz\<close> (and wraps), and \<^verbatim>\<open>audio.EOS\<close> is returned when the counter is then larger than
  the chunk size; otherwise the data chunk marker grows.
\<close>

definition advance :: "decoder \<Rightarrow> nat \<Rightarrow> error option \<times> decoder" where
  "advance d sz =
     (if chunkSize d > 0 then
        (let d' = d\<lparr>currentCount := currentCount d + of_nat sz\<rparr>
         in if currentCount d' > chunkSize d' then (Some EOS, d') else (None, d'))
      else (None, d\<lparr>dataChunkBegin := dataChunkBegin d + of_nat sz\<rparr>))"

text \<open>\<^verbatim>\<open>bRead\<close>: advance, then \<^verbatim>\<open>binary.Read\<close> of \<open>sz\<close> bytes (an \<^verbatim>\<open>io.ReadFull\<close>).\<close>

definition bRead :: "decoder \<Rightarrow> nat \<Rightarrow> (error + u8 list) \<times> decoder" where
  "bRead d sz =
     (case advance d sz of
        (Some e, d') \<Rightarrow> (Inl e, d')
      | (None, d') \<Rightarrow> (case readFull (rd d') sz of (r, s') \<Rightarrow> (r, d'\<lparr>rd := s'\<rparr>)))"

text \<open>
  \<^verbatim>\<open>smallRead\<close>: \<open>n\<close> bytes through the scratch buffer \<^verbatim>\<open>smallBuf\<close>. The buffer is
  overwritten before each use, so it is no part of the state.
\<close>

definition smallRead :: "decoder \<Rightarrow> nat \<Rightarrow> (error + u8 list) \<times> decoder" where
  "smallRead d n = (case readFull (rd d) n of (r, s') \<Rightarrow> (r, d\<lparr>rd := s'\<rparr>))"

text \<open>\<^verbatim>\<open>nextChunk\<close>: the 4-byte identifier and the little-endian 32-bit length.\<close>

definition nextChunk :: "decoder \<Rightarrow> (error + u8 list \<times> u32) \<times> decoder" where
  "nextChunk d =
     (case bRead d 4 of
        (Inl e, d1) \<Rightarrow> (Inl e, d1)
      | (Inr chunkIdent, d1) \<Rightarrow>
          (case bRead d1 4 of
             (Inl e, d2) \<Rightarrow> (Inl e, d2)
           | (Inr lb, d2) \<Rightarrow> (Inr (chunkIdent, Uint32 lb), d2)))"

text \<open>
  \<^verbatim>\<open>Seek\<close>: on a seekable source the 64-bit offset \<open>sample * (bitsPerSample / 8)\<close>,
  computed in \<^verbatim>\<open>uint64\<close> and read as \<^verbatim>\<open>int64\<close>, is added to the data chunk marker and
  handed to the source, whose error, if any, is returned; on any other source nothing
  happens.
\<close>

definition seek_target :: "decoder \<Rightarrow> u64 \<Rightarrow> i64" where
  "seek_target d sample = scast (dataChunkBegin d) + sample * (ucast (bitsPerSample d) div 8)"

definition Seek :: "decoder \<Rightarrow> u64 \<Rightarrow> error option \<times> decoder" where
  "Seek d sample =
     (if seekable (rd d) then
        (case seek_abs (rd d) (seek_target d sample) of
           Inl err \<Rightarrow> (Some err, d)
         | Inr s' \<Rightarrow> (None, d\<lparr>rd := s'\<rparr>))
      else (None, d))"

subsection \<open>Sample buffers\<close>

text \<open>
  An \<^verbatim>\<open>audio.Slice\<close> is a sequence of cells of one variant. The readers store a
  decoded value natively when the buffer has the reader's own variant and through
  \<^verbatim>\<open>b.Set(i, f64)\<close> otherwise. The conversions to \<^verbatim>\<open>float64\<close> belong to package
  \<^verbatim>\<open>audio\<close>; a cell written through \<^verbatim>\<open>Set\<close> records which conversion was applied to
  which decoded value (\<open>MuLawToFloat64 s\<close> stands for
  \<^verbatim>\<open>audio.Int16ToFloat64(audio.MuLawToInt16(s))\<close>, and likewise for A-law).
\<close>

datatype kind = Uint8K | Int16K | Int32K | Float32K | Float64K | MuLawK | ALawK

datatype f64src =
    Uint8ToFloat64 u8
  | Int16ToFloat64 i16
  | Int32ToFloat64 i32
  | Float32frombits u32
  | Float64frombits u64
  | MuLawToFloat64 u8
  | ALawToFloat64 u8

datatype cell =
    NatUint8 u8
  | NatInt16 i16
  | NatInt32 i32
  | NatFloat32 u32
  | NatMuLaw u8
  | NatALaw u8
  | ViaSet f64src

record audio_slice =
  kind :: kind
  cells :: "cell list"

definition Len :: "audio_slice \<Rightarrow> nat" where
  "Len b = length (cells b)"

subsection \<open>The per-format readers\<close>

text \<open>
  The eight readers are the same loop: for each slot, advance by the sample's byte
  width, pull that many bytes, decode, store. The loop is written once, with the width
  and the decode-and-store step of each reader as arguments. It returns the number of
  slots filled, the error, the decoder and the buffer.
\<close>

function sample_loop ::
  "nat \<Rightarrow> (kind \<Rightarrow> u8 list \<Rightarrow> cell) \<Rightarrow> decoder \<Rightarrow> audio_slice \<Rightarrow> nat
     \<Rightarrow> nat \<times> error option \<times> decoder \<times> audio_slice"
where
  "sample_loop sz dec d b read =
     (if read < Len b then
        (case advance d sz of
           (Some err, d1) \<Rightarrow> (read, Some err, d1, b)
         | (None, d1) \<Rightarrow>
             (case smallRead d1 sz of
                (Inl err, d2) \<Rightarrow> (read, Some err, d2, b)
              | (Inr buf, d2) \<Rightarrow>
                  sample_loop sz dec d2 (b\<lparr>cells := (cells b)[read := dec (kind b) buf]\<rparr>)
                    (read + 1)))
      else (read, None, d, b))"
  by pat_completeness auto
termination
  by (relation "measure (\<lambda>(sz, dec, d, b, read). Len b - read)") (auto simp: Len_def)

declare sample_loop.simps [simp del]

definition decUint8 :: "kind \<Rightarrow> u8 list \<Rightarrow> cell" where
  "decUint8 k buf =
     (let sample = buf ! 0
      in if k = Uint8K then NatUint8 sample else ViaSet (Uint8ToFloat64 sample))"

definition decInt16 :: "kind \<Rightarrow> u8 list \<Rightarrow> cell" where
  "decInt16 k buf =
     (let sample = Uint16 buf
      in if k = Int16K then NatInt16 sample else ViaSet (Int16ToFloat64 sample))"

text \<open>
  The 24-bit sample: three bytes assembled into an \<^verbatim>\<open>int32\<close>; when bit 23 is set, the
  upper byte is filled with ones (\<^verbatim>\<open>ss |= ^0xffffff\<close>).
\<close>

definition int24 :: "u8 list \<Rightarrow> i32" where
  "int24 sample =
     (let ss = ucast (sample ! 0) OR push_bit 8 (ucast (sample ! 1))
                 OR push_bit 16 (ucast (sample ! 2))
      in if 0 < sint (ss AND 0x800000) then ss OR NOT 0xffffff else ss)"

definition decInt24 :: "kind \<Rightarrow> u8 list \<Rightarrow> cell" where
  "decInt24 k sample =
     (let ss = int24 sample
      in if k = Int32K then NatInt32 ss else ViaSet (Int32ToFloat64 ss))"

definition decInt32 :: "kind \<Rightarrow> u8 list \<Rightarrow> cell" where
  "decInt32 k buf =
     (let sample = Uint32 buf
      in if k = Int32K then NatInt32 sample else ViaSet (Int32ToFloat64 sample))"

definition decFloat32 :: "kind \<Rightarrow> u8 list \<Rightarrow> cell" where
  "decFloat32 k buf =
     (let sample = Uint32 buf
      in if k = Float32K then NatFloat32 sample else ViaSet (Float32frombits sample))"

definition decFloat64 :: "kind \<Rightarrow> u8 list \<Rightarrow> cell" where
  "decFloat64 k buf = ViaSet (Float64frombits (Uint64 buf))"

definition decMuLaw :: "kind \<Rightarrow> u8 list \<Rightarrow> cell" where
  "decMuLaw k buf =
     (let sample = buf ! 0
      in if k = MuLawK then NatMuLaw sample else ViaSet (MuLawToFloat64 sample))"

definition decALaw :: "kind \<Rightarrow> u8 list \<Rightarrow> cell" where
  "decALaw k buf =
     (let sample = buf ! 0
      in if k = ALawK then NatALaw sample else ViaSet (ALawToFloat64 sample))"

type_synonym read_result = "nat \<times> error option \<times> decoder \<times> audio_slice"

definition readUint8 :: "decoder \<Rightarrow> audio_slice \<Rightarrow> read_result" where
  "readUint8 d b = sample_loop 1 decUint8 d b 0"

definition readInt16 :: "decoder \<Rightarrow> audio_slice \<Rightarrow> read_result" where
  "readInt16 d b = sample_loop 2 decInt16 d b 0"

definition readInt24 :: "decoder \<Rightarrow> audio_slice \<Rightarrow> read_result" where
  "readInt24 d b = sample_loop 3 decInt24 d b 0"

definition readInt32 :: "decoder \<Rightarrow> audio_slice \<Rightarrow> read_result" where
  "readInt32 d b = sample_loop 4 decInt32 d b 0"

definition readFloat32 :: "decoder \<Rightarrow> audio_slice \<Rightarrow> read_result" where
  "readFloat32 d b = sample_loop 4 decFloat32 d b 0"

definition readFloat64 :: "decoder \<Rightarrow> audio_slice \<Rightarrow> read_result" where
  "readFloat64 d b = sample_loop 8 decFloat64 d b 0"

definition readMuLaw :: "decoder \<Rightarrow> audio_slice \<Rightarrow> read_result" where
  "readMuLaw d b = sample_loop 1 decMuLaw d b 0"

definition readALaw :: "decoder \<Rightarrow> audio_slice \<Rightarrow> read_result" where
  "readALaw d b = sample_loop 1 decALaw d b 0"

lemmas reader_defs =
  readUint8_def readInt16_def readInt24_def readInt32_def
  readFloat32_def readFloat64_def readMuLaw_def readALaw_def

subsection \<open>Read\<close>

text \<open>
  \<^verbatim>\<open>Read\<close>: nothing for an empty buffer; otherwise the dispatch on the format tag and
  the bit width, which panics on a pair that has no reader.
\<close>

definition Read :: "decoder \<Rightarrow> audio_slice \<Rightarrow> read_result outcome" where
  "Read d b =
     (if Len b = 0 then Return (0, None, d, b)
      else if format d = wave_FORMAT_PCM then
        (if bitsPerSample d = 8 then Return (readUint8 d b)
         else if bitsPerSample d = 16 then Return (readInt16 d b)
         else if bitsPerSample d = 24 then Return (readInt24 d b)
         else if bitsPerSample d = 32 then Return (readInt32 d b)
         else Panic ''invalid bits per sample'')
      else if format d = wave_FORMAT_IEEE_FLOAT then
        (if bitsPerSample d = 32 then Return (readFloat32 d b)
         else if bitsPerSample d = 64 then Return (readFloat64 d b)
         else Panic ''invalid bits per sample'')
      else if format d = wave_FORMAT_MULAW then Return (readMuLaw d b)
      else if format d = wave_FORMAT_ALAW then Return (readALaw d b)
      else Panic ''invalid format'')"

subsection \<open>newDecoder\<close>

text \<open>
  Modelled from the spec: the declarations of \<^verbatim>\<open>fmtChunk16\<close>, \<^verbatim>\<open>fmtChunk18\<close>,
  \<^verbatim>\<open>fmtChunk40\<close> and \<^verbatim>\<open>factChunk\<close> are not part of the source text. The 16-byte
  record has the field order of the container layout (format tag, channels, sample
  rate, byte rate, block align, bits per sample, little-endian). The byte sizes of the
  other three records (\<^verbatim>\<open>binary.Size\<close> of each) are parameters of the model.
\<close>

record sizes =
  size_c18 :: nat
  size_c40 :: nat
  size_fact :: nat

definition c16_FormatTag :: "u8 list \<Rightarrow> u16" where
  "c16_FormatTag c = Uint16 (take 2 c)"

definition c16_Channels :: "u8 list \<Rightarrow> u16" where
  "c16_Channels c = Uint16 (take 2 (drop 2 c))"

definition c16_SamplesPerSec :: "u8 list \<Rightarrow> u32" where
  "c16_SamplesPerSec c = Uint32 (take 4 (drop 4 c))"

definition c16_BitsPerSample :: "u8 list \<Rightarrow> u16" where
  "c16_BitsPerSample c = Uint16 (take 2 (drop 14 c))"

text \<open>
  The body of \<^verbatim>\<open>case "fmt "\<close>: the 16-byte record, the bit width stored at once,
  the extension record for a chunk length of 18 or 40, then the check of the format tag
  against the bit width, and only then the format tag and the configuration.
\<close>

definition case_fmt :: "sizes \<Rightarrow> decoder \<Rightarrow> u32 \<Rightarrow> error + decoder" where
  "case_fmt z d len =
     (case bRead d 16 of
        (Inl err, _) \<Rightarrow> Inl err
      | (Inr c16, d1) \<Rightarrow>
          (let d2 = d1\<lparr>bitsPerSample := c16_BitsPerSample c16\<rparr>
           in case (if len = 18 then bRead d2 (size_c18 z)
                    else if len = 40 then bRead d2 (size_c40 z)
                    else (Inr [], d2)) of
                (Inl err, _) \<Rightarrow> Inl err
              | (Inr _, d3) \<Rightarrow>
                  (let ft = c16_FormatTag c16
                   in if ft = wave_FORMAT_PCM \<and>
                           (bitsPerSample d3 = 8 \<or> bitsPerSample d3 = 16 \<or>
                            bitsPerSample d3 = 24 \<or> bitsPerSample d3 = 32)
                         \<or> ft = wave_FORMAT_IEEE_FLOAT \<and>
                           (bitsPerSample d3 = 32 \<or> bitsPerSample d3 = 64)
                         \<or> ft = wave_FORMAT_ALAW \<and> bitsPerSample d3 = 8
                         \<or> ft = wave_FORMAT_MULAW \<and> bitsPerSample d3 = 8
                      then Inr (d3\<lparr>format := c16_FormatTag c16,
                                   config := Some \<lparr>Channels = unat (c16_Channels c16),
                                                   SampleRate = unat (c16_SamplesPerSec c16)\<rparr>\<rparr>)
                      else Inl ErrUnsupported)))"

text \<open>Bytes still unread; every chunk header read makes this smaller.\<close>

definition remaining :: "decoder \<Rightarrow> nat" where
  "remaining d = length (content (rd d)) - pos (rd d)"

lemma readFull_remaining:
  "readFull s n = (r, s') \<Longrightarrow> length (content s') - pos s' \<le> length (content s) - pos s"
  by (auto simp: readFull_def split: if_splits)

lemma readFull_Inr_remaining:
  "readFull s n = (Inr bs, s') \<Longrightarrow> 0 < n
     \<Longrightarrow> length (content s') - pos s' < length (content s) - pos s"
  by (auto simp: readFull_def avail_def split: if_splits)

lemma advance_rd: "advance d sz = (e, d') \<Longrightarrow> rd d' = rd d"
  by (auto simp: advance_def Let_def split: if_splits)

lemma bRead_remaining: "bRead d sz = (r, d') \<Longrightarrow> remaining d' \<le> remaining d"
  by (auto simp: bRead_def remaining_def split: prod.splits option.splits
      dest!: advance_rd readFull_remaining)

lemma bRead_Inr_remaining:
  "bRead d sz = (Inr bs, d') \<Longrightarrow> 0 < sz \<Longrightarrow> remaining d' < remaining d"
  by (auto simp: bRead_def remaining_def split: prod.splits option.splits
      dest!: advance_rd readFull_Inr_remaining)

lemma nextChunk_remaining:
  "nextChunk d = (Inr x, d') \<Longrightarrow> remaining d' < remaining d"
  by (auto simp: nextChunk_def split: prod.splits sum.splits
      dest!: bRead_Inr_remaining)

lemma case_fmt_remaining:
  "case_fmt z d len = Inr d' \<Longrightarrow> remaining d' \<le> remaining d"
  by (auto simp: case_fmt_def Let_def remaining_def split: prod.splits sum.splits if_splits
      dest!: bRead_remaining [unfolded remaining_def])

text \<open>
  The loop \<^verbatim>\<open>for !complete\<close> of \<^verbatim>\<open>newDecoder\<close>. The \<^verbatim>\<open>switch ident\<close> has no default
  branch: after a chunk with any other identifier the loop goes on to read the next
  chunk header where it stands. In \<^verbatim>\<open>case "RIFF"\<close> the error of the read is
  overwritten unchecked; a failed read leaves the four bytes of \<^verbatim>\<open>format\<close> zero.
\<close>

function chunk_loop :: "sizes \<Rightarrow> decoder \<Rightarrow> error + decoder" where
  "chunk_loop z d =
     (case nextChunk d of
        (Inl err, _) \<Rightarrow> Inl err
      | (Inr (ident, len), d1) \<Rightarrow>
          if ident = ascii ''RIFF'' then
            (case bRead d1 4 of
               (r, d2) \<Rightarrow>
                 if (case r of Inr fmt \<Rightarrow> fmt | Inl _ \<Rightarrow> [0, 0, 0, 0]) \<noteq> ascii ''WAVE''
                 then Inl ErrInvalidData
                 else chunk_loop z d2)
          else if ident = ascii ''fmt '' then
            (case case_fmt z d1 len of
               Inl err \<Rightarrow> Inl err
             | Inr d2 \<Rightarrow> chunk_loop z d2)
          else if ident = ascii ''fact'' then
            (case bRead d1 (size_fact z) of
               (Inl err, _) \<Rightarrow> Inl err
             | (Inr _, d2) \<Rightarrow> chunk_loop z d2)
          else if ident = ascii ''data'' then Inr (d1\<lparr>chunkSize := len\<rparr>)
          else chunk_loop z d1)"
  by pat_completeness auto
termination
proof (relation "measure (\<lambda>(z, d). remaining d)", goal_cases)
  case 1
  show ?case by simp
next
  case (2 z d x d1 b ident len r d2)
  then show ?case
    using nextChunk_remaining [of d b d1] bRead_remaining [of d1 4 r d2] by simp
next
  case (3 z d x d1 b ident len d2)
  then show ?case
    using nextChunk_remaining [of d b d1] case_fmt_remaining [of z d1 len d2] by simp
next
  case (4 z d x d1 b ident len r d2 fact)
  then show ?case
    using nextChunk_remaining [of d b d1] bRead_remaining [of d1 "size_fact z" r d2] by simp
next
  case (5 z d x d1 b ident len)
  then show ?case
    using nextChunk_remaining [of d b d1] by simp
qed

declare chunk_loop.simps [simp del]

text \<open>
  \<^verbatim>\<open>newDecoder\<close>: a fresh decoder (every field zero) on the reader, then the chunk
  loop. An argument that is no \<^verbatim>\<open>io.Reader\<close> makes it panic.
\<close>

datatype reader_arg = IsReader source | NotReader

definition new_decoder :: "source \<Rightarrow> decoder" where
  "new_decoder r = \<lparr>format = 0, bitsPerSample = 0, chunkSize = 0, currentCount = 0,
     dataChunkBegin = 0, rd = r, config = None\<rparr>"

definition newDecoder :: "sizes \<Rightarrow> reader_arg \<Rightarrow> (error + decoder) outcome" where
  "newDecoder z r =
     (case r of
        IsReader t \<Rightarrow> Return (chunk_loop z (new_decoder t))
      | NotReader \<Rightarrow>
          Panic ''NewDecoder(): Invalid reader type; must be io.Reader or io.ReadSeeker!'')"


subsection \<open>Callers and auxiliary notions\<close>

text \<open>
  The loop of a caller that reads until the first error, as \<^verbatim>\<open>testDecode\<close> does:
  the samples of every call are added up, the call that returns an error included. The
  buffers of the successive calls are given as a list.
\<close>

fun read_calls :: "decoder \<Rightarrow> audio_slice list \<Rightarrow> nat \<Rightarrow> (nat \<times> error option) outcome" where
  "read_calls d [] samplesTotal = Return (samplesTotal, None)"
| "read_calls d (buf # bufs) samplesTotal =
     (case Read d buf of
        Panic msg \<Rightarrow> Panic msg
      | Return (read, err, d', _) \<Rightarrow>
          (case err of
             Some e \<Rightarrow> Return (samplesTotal + read, Some e)
           | None \<Rightarrow> read_calls d' bufs (samplesTotal + read)))"

text \<open>
  The reader that \<^verbatim>\<open>Read\<close> dispatches to, as its byte width and its decode step;
  \<open>None\<close> for the pairs on which \<^verbatim>\<open>Read\<close> panics.
\<close>

definition reader_of :: "decoder \<Rightarrow> (nat \<times> (kind \<Rightarrow> u8 list \<Rightarrow> cell)) option" where
  "reader_of d =
     (if format d = wave_FORMAT_PCM then
        (if bitsPerSample d = 8 then Some (1, decUint8)
         else if bitsPerSample d = 16 then Some (2, decInt16)
         else if bitsPerSample d = 24 then Some (3, decInt24)
         else if bitsPerSample d = 32 then Some (4, decInt32)
         else None)
      else if format d = wave_FORMAT_IEEE_FLOAT then
        (if bitsPerSample d = 32 then Some (4, decFloat32)
         else if bitsPerSample d = 64 then Some (8, decFloat64)
         else None)
      else if format d = wave_FORMAT_MULAW then Some (1, decMuLaw)
      else if format d = wave_FORMAT_ALAW then Some (1, decALaw)
      else None)"

text \<open>
  The decoder after \<open>n\<close> bytes were accounted for by \<^verbatim>\<open>advance\<close> and read from the
  source.
\<close>

definition consumed :: "decoder \<Rightarrow> nat \<Rightarrow> decoder" where
  "consumed d n =
     (if chunkSize d > 0 then d\<lparr>currentCount := currentCount d + of_nat n\<rparr>
      else d\<lparr>dataChunkBegin := dataChunkBegin d + of_nat n\<rparr>)
     \<lparr>rd := (rd d)\<lparr>pos := pos (rd d) + n\<rparr>\<rparr>"

text \<open>
  The cells of a buffer after \<open>m\<close> samples of \<open>sz\<close> bytes each, taken from the bytes
  \<open>bs\<close>, were stored from slot \<open>read\<close> on.
\<close>

fun stored :: "(kind \<Rightarrow> u8 list \<Rightarrow> cell) \<Rightarrow> nat \<Rightarrow> kind \<Rightarrow> u8 list \<Rightarrow> nat \<Rightarrow> nat
    \<Rightarrow> cell list \<Rightarrow> cell list" where
  "stored dec sz k bs read 0 cs = cs"
| "stored dec sz k bs read (Suc m) cs =
     stored dec sz k (drop sz bs) (Suc read) m (cs[read := dec k (take sz bs)])"

text \<open>The three bytes of a 24-bit sample put together, before the sign is extended.\<close>

definition assemble24 :: "u8 \<Rightarrow> u8 \<Rightarrow> u8 \<Rightarrow> i32" where
  "assemble24 a b c = ucast a OR push_bit 8 (ucast b) OR push_bit 16 (ucast c)"

text \<open>
  Modelled from the spec: concrete sizes for the records whose declarations are not in
  the source text, used where a container is evaluated: the extension record of an
  18-byte \<^verbatim>\<open>fmt \<close> chunk is the 2-byte cb-size, that of a 40-byte chunk is cb-size,
  valid bits, channel mask and the 16-byte sub-format, and the fact record is one 32-bit
  count.
\<close>

definition spec_sizes :: sizes where
  "spec_sizes = \<lparr>size_c18 = 2, size_c40 = 24, size_fact = 4\<rparr>"

text \<open>Example containers: a seekable source over given bytes and the usual chunks.\<close>

definition from_bytes :: "u8 list \<Rightarrow> source" where
  "from_bytes bs = \<lparr>content = bs, pos = 0, seekable = True,
       seek_error = no_seek_error\<rparr>"

definition riff_header :: "u8 \<Rightarrow> u8 list" where
  "riff_header n = ascii ''RIFF'' @ [n, 0, 0, 0] @ ascii ''WAVE''"

definition fmt_pcm16 :: "u8 list" where
  "fmt_pcm16 = ascii ''fmt '' @ [16, 0, 0, 0] @
     [1, 0, 2, 0, 0x44, 0xAC, 0, 0, 0x10, 0xB1, 2, 0, 4, 0, 16, 0]"

definition data_2 :: "u8 list" where
  "data_2 = ascii ''data'' @ [2, 0, 0, 0] @ [1, 2]"

definition list_info :: "u8 list" where
  "list_info = ascii ''LIST'' @ [4, 0, 0, 0] @ ascii ''INFO''"

text \<open>The decoders that \<open>newDecoder\<close> returns on some of these containers.\<close>

definition decoder_pcm16 :: decoder where
  "decoder_pcm16 = \<lparr>format = 1, bitsPerSample = 16, chunkSize = 2, currentCount = 0,
     dataChunkBegin = 44,
     rd = \<lparr>content = riff_header 38 @ fmt_pcm16 @ data_2, pos = 44, seekable = True,
       seek_error = no_seek_error\<rparr>,
     config = Some \<lparr>Channels = 2, SampleRate = 44100\<rparr>\<rparr>"

definition decoder_no_riff :: decoder where
  "decoder_no_riff = \<lparr>format = 1, bitsPerSample = 16, chunkSize = 2, currentCount = 0,
     dataChunkBegin = 32,
     rd = \<lparr>content = fmt_pcm16 @ data_2, pos = 32, seekable = True,
       seek_error = no_seek_error\<rparr>,
     config = Some \<lparr>Channels = 2, SampleRate = 44100\<rparr>\<rparr>"

definition decoder_no_fmt :: decoder where
  "decoder_no_fmt = \<lparr>format = 0, bitsPerSample = 0, chunkSize = 2, currentCount = 0,
     dataChunkBegin = 20,
     rd = \<lparr>content = riff_header 14 @ data_2, pos = 20, seekable = True,
       seek_error = no_seek_error\<rparr>,
     config = None\<rparr>"

definition fmt_pcm8 :: "u8 list" where
  "fmt_pcm8 = ascii ''fmt '' @ [16, 0, 0, 0] @
     [1, 0, 1, 0, 0x40, 0x1F, 0, 0, 0x40, 0x1F, 0, 0, 1, 0, 8, 0]"

text \<open>
  A stream as an encoder writes it to a pipe: both length fields are \<^verbatim>\<open>0xFFFFFFFF\<close>.
  Here the data chunk does hold that many 8-bit samples, and one more byte follows.
\<close>

definition endless_stream :: "u8 list" where
  "endless_stream = ascii ''RIFF'' @ [0xFF, 0xFF, 0xFF, 0xFF] @ ascii ''WAVE'' @ fmt_pcm8 @
     ascii ''data'' @ [0xFF, 0xFF, 0xFF, 0xFF] @ replicate 4294967295 0x80 @ [0x7F]"

definition decoder_endless :: decoder where
  "decoder_endless = \<lparr>format = 1, bitsPerSample = 8, chunkSize = 0xFFFFFFFF, currentCount = 0,
     dataChunkBegin = 44,
     rd = \<lparr>content = endless_stream, pos = 44, seekable = True,
       seek_error = no_seek_error\<rparr>,
     config = Some \<lparr>Channels = 1, SampleRate = 8000\<rparr>\<rparr>"

text \<open>Buffers of \<open>n\<close> samples, of the variants \<^verbatim>\<open>audio.Uint8\<close> and \<^verbatim>\<open>audio.Int16\<close>.\<close>

definition buf8 :: "nat \<Rightarrow> audio_slice" where
  "buf8 n = \<lparr>kind = Uint8K, cells = replicate n (NatUint8 0)\<rparr>"

definition buf32 :: "nat \<Rightarrow> audio_slice" where
  "buf32 n = \<lparr>kind = Int32K, cells = replicate n (NatInt32 0)\<rparr>"

text \<open>A decoder of 24-bit samples at the start of a data chunk of two samples.\<close>

definition decoder_pcm24 :: decoder where
  "decoder_pcm24 = \<lparr>format = 1, bitsPerSample = 24, chunkSize = 6, currentCount = 0,
     dataChunkBegin = 0,
     rd = from_bytes [0x00, 0x00, 0x80, 0xFF, 0xFF, 0x7F],
     config = Some \<lparr>Channels = 1, SampleRate = 8000\<rparr>\<rparr>"

definition buf16 :: "nat \<Rightarrow> audio_slice" where
  "buf16 n = \<lparr>kind = Int16K, cells = replicate n (NatInt16 0)\<rparr>"

text \<open>
  A caller that keeps calling \<open>Read\<close> with the same buffer whatever it returns; the
  decoder after \<open>n\<close> such calls.
\<close>

fun poll :: "decoder \<Rightarrow> audio_slice \<Rightarrow> nat \<Rightarrow> decoder" where
  "poll d b 0 = d"
| "poll d b (Suc n) =
     (case Read d b of
        Panic _ \<Rightarrow> d
      | Return (_, _, d', _) \<Rightarrow> poll d' b n)"

text \<open>
  A well-formed container whose \<^verbatim>\<open>data\<close> chunk (one 16-bit sample) is followed by a
  \<^verbatim>\<open>LIST\<close> chunk, and its decoder with the byte counter at \<open>cc\<close> and the source at
  position \<open>p\<close>.
\<close>

definition trailing_source :: "nat \<Rightarrow> source" where
  "trailing_source p =
     \<lparr>content = riff_header 50 @ fmt_pcm16 @ data_2 @ list_info, pos = p, seekable = True,
       seek_error = no_seek_error\<rparr>"

definition trailing_decoder :: "u32 \<Rightarrow> nat \<Rightarrow> decoder" where
  "trailing_decoder cc p = \<lparr>format = 1, bitsPerSample = 16, chunkSize = 2, currentCount = cc,
     dataChunkBegin = 44, rd = trailing_source p,
     config = Some \<lparr>Channels = 2, SampleRate = 44100\<rparr>\<rparr>"

text \<open>The size of the extension record that \<^verbatim>\<open>case "fmt "\<close> reads for a chunk length.\<close>

definition fmt_ext_size :: "sizes \<Rightarrow> u32 \<Rightarrow> nat" where
  "fmt_ext_size z len = (if len = 18 then size_c18 z else if len = 40 then size_c40 z else 0)"

text \<open>A \<^verbatim>\<open>fmt \<close> chunk with the format tag \<^verbatim>\<open>0xFFFE\<close>.\<close>

definition fmt_extensible :: "u8 list" where
  "fmt_extensible = ascii ''fmt '' @ [16, 0, 0, 0] @
     [0xFE, 0xFF, 2, 0, 0x44, 0xAC, 0, 0, 0x10, 0xB1, 2, 0, 4, 0, 16, 0]"





text \<open>
  The container of \<open>decoder_pcm16\<close> embedded in a larger file: ten other bytes precede it,
  and the reader stands at byte 10 when \<open>newDecoder\<close> is called. \<open>embedded_decoder p\<close> is
  its decoder with the source at position \<open>p\<close>.
\<close>

definition embedded_source :: source where
  "embedded_source = \<lparr>content = replicate 10 0 @ riff_header 38 @ fmt_pcm16 @ data_2, pos = 10,
       seekable = True, seek_error = no_seek_error\<rparr>"

definition embedded_decoder :: "nat \<Rightarrow> decoder" where
  "embedded_decoder p = \<lparr>format = 1, bitsPerSample = 16, chunkSize = 2, currentCount = 0,
     dataChunkBegin = 44, rd = embedded_source\<lparr>pos := p\<rparr>,
     config = Some \<lparr>Channels = 2, SampleRate = 44100\<rparr>\<rparr>"


text \<open>
  A caller that makes any sequence of calls of \<open>Read\<close> and \<open>Seek\<close>; the decoder after
  these calls, and the number of calls of \<open>Read\<close> among them whose buffer is not empty.
\<close>

datatype call = ReadCall audio_slice | SeekCall u64

fun after_calls :: "decoder \<Rightarrow> call list \<Rightarrow> decoder outcome" where
  "after_calls d [] = Return d"
| "after_calls d (ReadCall b # cs) =
     (case Read d b of
        Panic msg \<Rightarrow> Panic msg
      | Return (_, _, d', _) \<Rightarrow> after_calls d' cs)"
| "after_calls d (SeekCall i # cs) = after_calls (snd (Seek d i)) cs"

fun nonempty_reads :: "call list \<Rightarrow> nat" where
  "nonempty_reads [] = 0"
| "nonempty_reads (ReadCall b # cs) = (if 0 < Len b then 1 else 0) + nonempty_reads cs"
| "nonempty_reads (SeekCall i # cs) = nonempty_reads cs"

text \<open>
  The table of supported pairs of format tag and bit width, as the specification lists
  it; \<open>case_fmt\<close> above has the check as the source writes it.
\<close>

definition spec_supported :: "(u16 \<times> u16) set" where
  "spec_supported =
     {(wave_FORMAT_PCM, 8), (wave_FORMAT_PCM, 16), (wave_FORMAT_PCM, 24), (wave_FORMAT_PCM, 32),
      (wave_FORMAT_IEEE_FLOAT, 32), (wave_FORMAT_IEEE_FLOAT, 64),
      (wave_FORMAT_ALAW, 8), (wave_FORMAT_MULAW, 8)}"

text \<open>
  The decoder after a \<^verbatim>\<open>fmt \<close> chunk with the record \<open>c16\<close> was accepted, \<open>n\<close> bytes
  having been consumed.
\<close>

definition fmt_recorded :: "decoder \<Rightarrow> u8 list \<Rightarrow> nat \<Rightarrow> decoder" where
  "fmt_recorded d c16 n =
     (consumed d n)\<lparr>format := c16_FormatTag c16, bitsPerSample := c16_BitsPerSample c16,
       config := Some \<lparr>Channels = unat (c16_Channels c16),
                       SampleRate = unat (c16_SamplesPerSec c16)\<rparr>\<rparr>"

lemmas eval_defs = newDecoder_def new_decoder_def chunk_loop.simps nextChunk_def bRead_def
  advance_def readFull_def avail_def Uint32_def Uint16_def ascii_def case_fmt_def Let_def
  from_bytes_def spec_sizes_def riff_header_def fmt_pcm16_def data_2_def list_info_def
  c16_FormatTag_def c16_BitsPerSample_def c16_Channels_def c16_SamplesPerSec_def wave_FORMAT_defs

section \<open>Properties\<close>

subsection \<open>Reading from the source\<close>

lemma ascii_length [simp]: "length (ascii s) = length s"
  by (simp add: ascii_def)

lemma avail_pos [simp]: "avail (s\<lparr>pos := pos s + n\<rparr>) = drop n (avail s)"
  by (simp add: avail_def add.commute)

lemma readFull_enough:
  "n \<le> length (avail s) \<Longrightarrow> readFull s n = (Inr (take n (avail s)), s\<lparr>pos := pos s + n\<rparr>)"
  by (simp add: readFull_def)

lemma readFull_prefix:
  "avail s = xs @ ys \<Longrightarrow> length xs = n \<Longrightarrow> readFull s n = (Inr xs, s\<lparr>pos := pos s + n\<rparr>)"
  by (simp add: readFull_def)

lemma consumed_simps [simp]:
  "chunkSize (consumed d n) = chunkSize d"
  "format (consumed d n) = format d"
  "bitsPerSample (consumed d n) = bitsPerSample d"
  "config (consumed d n) = config d"
  "rd (consumed d n) = (rd d)\<lparr>pos := pos (rd d) + n\<rparr>"
  "currentCount (consumed d n)
     = (if chunkSize d > 0 then currentCount d + of_nat n else currentCount d)"
  "dataChunkBegin (consumed d n)
     = (if chunkSize d > 0 then dataChunkBegin d else dataChunkBegin d + of_nat n)"
  by (simp_all add: consumed_def)

lemma avail_consumed: "avail (rd (consumed d n)) = drop n (avail (rd d))"
  by simp

lemma avail_consumed_prefix:
  "avail (rd d) = xs @ ys \<Longrightarrow> length xs = n \<Longrightarrow> avail (rd (consumed d n)) = ys"
  by simp

lemma consumed_consumed: "consumed (consumed d m) n = consumed d (m + n)"
  by (simp add: consumed_def add.assoc)

lemma consumed_0: "consumed d 0 = d"
  by (simp add: consumed_def)

subsection \<open>Chunk headers\<close>

lemma bRead_header:
  "chunkSize d = 0 \<Longrightarrow> avail (rd d) = xs @ ys \<Longrightarrow> length xs = n
     \<Longrightarrow> bRead d n = (Inr xs, consumed d n)"
  by (simp add: bRead_def advance_def consumed_def readFull_prefix)

lemma bRead_header_short:
  "chunkSize d = 0 \<Longrightarrow> length (avail (rd d)) < n \<Longrightarrow> \<exists>e d'. bRead d n = (Inl e, d')"
  by (simp add: bRead_def advance_def readFull_def)

lemma nextChunk_header:
  assumes "chunkSize d = 0" "avail (rd d) = ident @ lb @ rest" "length ident = 4" "length lb = 4"
  shows "nextChunk d = (Inr (ident, Uint32 lb), consumed d 8)"
proof -
  have 1: "bRead d 4 = (Inr ident, consumed d 4)"
    using assms bRead_header [of d ident "lb @ rest" 4] by simp
  have 2: "avail (rd (consumed d 4)) = lb @ rest"
    using assms by simp
  have 3: "bRead (consumed d 4) 4 = (Inr lb, consumed (consumed d 4) 4)"
    using 2 assms bRead_header [of "consumed d 4" lb rest 4] by simp
  show ?thesis by (simp add: nextChunk_def 1 3 consumed_consumed)
qed

subsection \<open>The byte counter\<close>

lemma u32_add_no_wrap:
  fixes x :: u32
  assumes "unat x + n < 2 ^ 32"
  shows "unat (x + of_nat n) = unat x + n"
proof -
  have "n < 2 ^ 32" using assms by simp
  then have "unat (of_nat n :: u32) = n" by (simp add: unat_of_nat)
  then show ?thesis using assms unat_add_lem [of x "of_nat n"] by simp
qed

lemma u32_unat_bound: "unat (x :: u32) < 2 ^ 32"
  using unsigned_less [of x, where 'a = nat] by simp

lemma advance_ok:
  assumes "chunkSize d = 0 \<or> unat (currentCount d) + sz \<le> unat (chunkSize d)"
  shows "advance d sz = (None, (consumed d sz)\<lparr>rd := rd d\<rparr>)"
proof (cases "chunkSize d = 0")
  case True
  then show ?thesis by (simp add: advance_def consumed_def)
next
  case False
  with assms have le: "unat (currentCount d) + sz \<le> unat (chunkSize d)" by simp
  with u32_unat_bound [of "chunkSize d"]
  have "unat (currentCount d + of_nat sz) = unat (currentCount d) + sz"
    by (intro u32_add_no_wrap) simp
  with le have "\<not> chunkSize d < currentCount d + of_nat sz"
    by (simp add: word_less_nat_alt)
  with False show ?thesis
    by (simp add: advance_def consumed_def Let_def word_greater_zero_iff)
qed

lemma advance_eos:
  assumes "0 < chunkSize d" "unat (chunkSize d) < unat (currentCount d) + sz"
    "unat (currentCount d) + sz < 2 ^ 32"
  shows "advance d sz = (Some EOS, d\<lparr>currentCount := currentCount d + of_nat sz\<rparr>)"
proof -
  have "unat (currentCount d + of_nat sz) = unat (currentCount d) + sz"
    using assms by (intro u32_add_no_wrap) simp
  with assms have "chunkSize d < currentCount d + of_nat sz"
    by (simp add: word_less_nat_alt)
  with assms show ?thesis by (simp add: advance_def Let_def)
qed

subsection \<open>The sample loop\<close>

lemma sample_loop_done:
  "\<not> read < Len b \<Longrightarrow> sample_loop sz dec d b read = (read, None, d, b)"
  by (subst sample_loop.simps) simp

lemma sample_loop_eos:
  assumes "read < Len b" "0 < chunkSize d" "unat (chunkSize d) < unat (currentCount d) + sz"
    "unat (currentCount d) + sz < 2 ^ 32"
  shows "sample_loop sz dec d b read
           = (read, Some EOS, d\<lparr>currentCount := currentCount d + of_nat sz\<rparr>, b)"
  using assms by (subst sample_loop.simps) (simp add: advance_eos)

lemma sample_loop_step:
  assumes "read < Len b" "sz \<le> length (avail (rd d))"
    "chunkSize d = 0 \<or> unat (currentCount d) + sz \<le> unat (chunkSize d)"
  shows "sample_loop sz dec d b read
           = sample_loop sz dec (consumed d sz)
               (b\<lparr>cells := (cells b)[read := dec (kind b) (take sz (avail (rd d)))]\<rparr>) (read + 1)"
proof -
  have c: "(consumed d sz)\<lparr>rd := (rd d)\<lparr>pos := pos (rd d) + sz\<rparr>\<rparr> = consumed d sz"
    by (simp add: consumed_def)
  show ?thesis
    using assms
    by (subst sample_loop.simps) (simp add: advance_ok smallRead_def readFull_enough c)
qed

lemma advance_ok_word:
  assumes "chunkSize d = 0 \<or> \<not> chunkSize d < currentCount d + of_nat sz"
  shows "advance d sz = (None, (consumed d sz)\<lparr>rd := rd d\<rparr>)"
  using assms by (auto simp: advance_def consumed_def Let_def word_greater_zero_iff)

lemma sample_loop_step_word:
  assumes "read < Len b" "sz \<le> length (avail (rd d))"
    "chunkSize d = 0 \<or> \<not> chunkSize d < currentCount d + of_nat sz"
  shows "sample_loop sz dec d b read
           = sample_loop sz dec (consumed d sz)
               (b\<lparr>cells := (cells b)[read := dec (kind b) (take sz (avail (rd d)))]\<rparr>) (read + 1)"
proof -
  have c: "(consumed d sz)\<lparr>rd := (rd d)\<lparr>pos := pos (rd d) + sz\<rparr>\<rparr> = consumed d sz"
    by (simp add: consumed_def)
  show ?thesis
    using assms
    by (subst sample_loop.simps) (simp add: advance_ok_word smallRead_def readFull_enough c)
qed

lemma length_stored [simp]: "length (stored dec sz k bs read m cs) = length cs"
  by (induction m arbitrary: bs read cs) auto

lemma stored_before: "j < read \<Longrightarrow> stored dec sz k bs read m cs ! j = cs ! j"
  by (induction m arbitrary: bs read cs) auto

lemma stored_nth:
  "i < m \<Longrightarrow> read + m \<le> length cs
     \<Longrightarrow> stored dec sz k bs read m cs ! (read + i) = dec k (take sz (drop (i * sz) bs))"
proof (induction m arbitrary: bs read cs i)
  case 0
  then show ?case by simp
next
  case (Suc m)
  show ?case
  proof (cases i)
    case 0
    with Suc.prems show ?thesis by (simp add: stored_before)
  next
    case (Suc i')
    with Suc.prems Suc.IH [of i' "Suc read" "cs[read := dec k (take sz bs)]" "drop sz bs"]
    show ?thesis by (simp add: add.commute)
  qed
qed

lemma sample_loop_steps:
  assumes "read + m \<le> Len b" "m * sz \<le> length (avail (rd d))"
    "chunkSize d = 0 \<or> unat (currentCount d) + m * sz \<le> unat (chunkSize d)"
  shows "sample_loop sz dec d b read
           = sample_loop sz dec (consumed d (m * sz))
               (b\<lparr>cells := stored dec sz (kind b) (avail (rd d)) read m (cells b)\<rparr>) (read + m)"
  using assms
proof (induction m arbitrary: d b read)
  case 0
  then show ?case by (simp add: consumed_0)
next
  case (Suc m)
  let ?b1 = "b\<lparr>cells := (cells b)[read := dec (kind b) (take sz (avail (rd d)))]\<rparr>"
  let ?d1 = "consumed d sz"
  have step: "sample_loop sz dec d b read = sample_loop sz dec ?d1 ?b1 (read + 1)"
    using Suc.prems by (intro sample_loop_step) auto
  have cc: "chunkSize ?d1 = 0 \<or> unat (currentCount ?d1) + m * sz \<le> unat (chunkSize ?d1)"
  proof (cases "chunkSize d = 0")
    case True
    then show ?thesis by simp
  next
    case False
    with Suc.prems have le: "unat (currentCount d) + (sz + m * sz) \<le> unat (chunkSize d)" by simp
    with u32_unat_bound [of "chunkSize d"]
    have "unat (currentCount d + of_nat sz) = unat (currentCount d) + sz"
      by (intro u32_add_no_wrap) simp
    with le False show ?thesis by (simp add: word_greater_zero_iff)
  qed
  have "sample_loop sz dec ?d1 ?b1 (read + 1)
          = sample_loop sz dec (consumed ?d1 (m * sz))
              (?b1\<lparr>cells := stored dec sz (kind ?b1) (avail (rd ?d1)) (read + 1) m (cells ?b1)\<rparr>)
              (read + 1 + m)"
    using Suc.prems cc by (intro Suc.IH) (auto simp: Len_def)
  with step show ?case by (simp add: consumed_consumed)
qed

text \<open>A whole buffer that fits before the end of the chunk (or an unknown chunk size).\<close>

lemma sample_loop_fill:
  assumes "Len b * sz \<le> length (avail (rd d))"
    "chunkSize d = 0 \<or> unat (currentCount d) + Len b * sz \<le> unat (chunkSize d)"
  shows "sample_loop sz dec d b 0
           = (Len b, None, consumed d (Len b * sz),
              b\<lparr>cells := stored dec sz (kind b) (avail (rd d)) 0 (Len b) (cells b)\<rparr>)"
proof -
  let ?b' = "b\<lparr>cells := stored dec sz (kind b) (avail (rd d)) 0 (Len b) (cells b)\<rparr>"
  have "sample_loop sz dec d b 0 = sample_loop sz dec (consumed d (Len b * sz)) ?b' (0 + Len b)"
    using assms by (intro sample_loop_steps) auto
  also have "\<dots> = (Len b, None, consumed d (Len b * sz), ?b')"
    by (simp add: sample_loop_done Len_def)
  finally show ?thesis .
qed

text \<open>A buffer that spans the end of the chunk: \<open>r\<close> whole samples are left.\<close>

lemma sample_loop_boundary:
  assumes "r < Len b" "r * sz \<le> length (avail (rd d))" "0 < chunkSize d"
    "unat (currentCount d) + r * sz \<le> unat (chunkSize d)"
    "unat (chunkSize d) < unat (currentCount d) + r * sz + sz"
    "unat (currentCount d) + r * sz + sz < 2 ^ 32"
  shows "sample_loop sz dec d b 0
           = (r, Some EOS,
              (consumed d (r * sz))\<lparr>currentCount := currentCount d + of_nat (r * sz) + of_nat sz\<rparr>,
              b\<lparr>cells := stored dec sz (kind b) (avail (rd d)) 0 r (cells b)\<rparr>)"
proof -
  let ?b' = "b\<lparr>cells := stored dec sz (kind b) (avail (rd d)) 0 r (cells b)\<rparr>"
  let ?d' = "consumed d (r * sz)"
  have cc: "currentCount ?d' = currentCount d + of_nat (r * sz)"
    using assms by simp
  have u: "unat (currentCount ?d') = unat (currentCount d) + r * sz"
    unfolding cc using assms by (intro u32_add_no_wrap) simp
  have "sample_loop sz dec d b 0 = sample_loop sz dec ?d' ?b' (0 + r)"
    using assms by (intro sample_loop_steps) auto
  also have "\<dots> = (r, Some EOS, ?d'\<lparr>currentCount := currentCount ?d' + of_nat sz\<rparr>, ?b')"
    using assms u by (simp add: Len_def sample_loop_eos)
  finally show ?thesis using assms(3) by simp
qed


subsection \<open>Read as a sample loop\<close>

lemma Read_reader:
  "reader_of d = Some (w, dec) \<Longrightarrow> 0 < Len b \<Longrightarrow> Read d b = Return (sample_loop w dec d b 0)"
  by (auto simp: reader_of_def Read_def reader_defs split: if_splits)

lemma Read_no_reader:
  "reader_of d = None \<Longrightarrow> 0 < Len b
     \<Longrightarrow> Read d b = Panic ''invalid bits per sample'' \<or> Read d b = Panic ''invalid format''"
  by (auto simp: reader_of_def Read_def split: if_splits)

lemma reader_of_width: "reader_of d = Some (w, dec) \<Longrightarrow> 0 < w"
  by (auto simp: reader_of_def split: if_splits)

lemma reader_of_cong:
  "format d' = format d \<Longrightarrow> bitsPerSample d' = bitsPerSample d \<Longrightarrow> reader_of d' = reader_of d"
  by (simp add: reader_of_def)

text \<open>
  One call in a state in which \<open>r\<close> whole samples are left before the end of the chunk
  and the cursor cannot wrap.
\<close>

lemma Read_within:
  assumes "reader_of d = Some (w, dec)" "0 < Len b" "Len b \<le> r" "0 < chunkSize d"
    "unat (currentCount d) + r * w = unat (chunkSize d)" "r * w \<le> length (avail (rd d))"
  shows "Read d b = Return (Len b, None, consumed d (Len b * w),
           b\<lparr>cells := stored dec w (kind b) (avail (rd d)) 0 (Len b) (cells b)\<rparr>)"
proof -
  have le: "Len b * w \<le> r * w" using assms by simp
  have 1: "Len b * w \<le> length (avail (rd d))" using le assms(6) by (rule order_trans)
  have 2: "unat (currentCount d) + Len b * w \<le> unat (chunkSize d)" using le assms(5) by arith
  have "sample_loop w dec d b 0
          = (Len b, None, consumed d (Len b * w),
             b\<lparr>cells := stored dec w (kind b) (avail (rd d)) 0 (Len b) (cells b)\<rparr>)"
    using 1 2 by (intro sample_loop_fill) auto
  then show ?thesis using assms by (simp add: Read_reader)
qed

lemma Read_boundary:
  assumes "reader_of d = Some (w, dec)" "r < Len b" "0 < chunkSize d"
    "unat (currentCount d) + r * w = unat (chunkSize d)" "r * w \<le> length (avail (rd d))"
    "unat (chunkSize d) + w < 2 ^ 32"
  shows "Read d b = Return (r, Some EOS,
           (consumed d (r * w))\<lparr>currentCount := chunkSize d + of_nat w\<rparr>,
           b\<lparr>cells := stored dec w (kind b) (avail (rd d)) 0 r (cells b)\<rparr>)"
proof -
  have w: "0 < w" using assms reader_of_width by blast
  have "word_of_nat (unat (currentCount d) + r * w) = (word_of_nat (unat (chunkSize d)) :: u32)"
    using assms by simp
  then have cs: "currentCount d + of_nat r * of_nat w = chunkSize d"
    by simp
  have "sample_loop w dec d b 0
          = (r, Some EOS,
             (consumed d (r * w))\<lparr>currentCount := currentCount d + of_nat (r * w) + of_nat w\<rparr>,
             b\<lparr>cells := stored dec w (kind b) (avail (rd d)) 0 r (cells b)\<rparr>)"
    using assms w by (intro sample_loop_boundary) auto
  then show ?thesis using assms by (simp add: Read_reader cs)
qed

lemma read_calls_remaining:
  assumes "reader_of d = Some (w, dec)" "0 < chunkSize d"
    "unat (currentCount d) + r * w = unat (chunkSize d)" "r * w \<le> length (avail (rd d))"
    "unat (chunkSize d) + w < 2 ^ 32"
    "\<forall>b \<in> set bufs. 0 < Len b" "r < sum_list (map Len bufs)"
  shows "read_calls d bufs t = Return (t + r, Some EOS)"
  using assms
proof (induction bufs arbitrary: d r t)
  case Nil
  then show ?case by simp
next
  case (Cons b bufs)
  show ?case
  proof (cases "r < Len b")
    case True
    with Cons.prems show ?thesis by (simp add: Read_boundary)
  next
    case False
    then have le: "Len b \<le> r" by simp
    let ?d' = "consumed d (Len b * w)"
    have pos: "0 < Len b" using Cons.prems by simp
    have rd: "Read d b = Return (Len b, None, ?d',
        b\<lparr>cells := stored dec w (kind b) (avail (rd d)) 0 (Len b) (cells b)\<rparr>)"
      using Cons.prems le pos by (intro Read_within) auto
    have lw: "Len b * w \<le> r * w" using le by simp
    have split: "r * w = Len b * w + (r - Len b) * w"
      using le by (simp add: algebra_simps flip: add_mult_distrib)
    have nw: "unat (currentCount d) + Len b * w < 2 ^ 32"
      using Cons.prems(3) lw u32_unat_bound [of "chunkSize d"] by arith
    have "unat (currentCount d + of_nat (Len b * w)) = unat (currentCount d) + Len b * w"
      using nw by (rule u32_add_no_wrap)
    then have u: "unat (currentCount ?d') = unat (currentCount d) + Len b * w"
      using Cons.prems(2) by simp
    have "read_calls ?d' bufs (t + Len b) = Return (t + Len b + (r - Len b), Some EOS)"
    proof (rule Cons.IH)
      show "reader_of ?d' = Some (w, dec)"
        using Cons.prems(1) by (simp add: reader_of_cong [of ?d' d])
      show "0 < chunkSize ?d'" using Cons.prems by simp
      show "unat (currentCount ?d') + (r - Len b) * w = unat (chunkSize ?d')"
        using Cons.prems(3) u split by simp
      show "(r - Len b) * w \<le> length (avail (rd ?d'))"
        using Cons.prems(4) split by simp
      show "unat (chunkSize ?d') + w < 2 ^ 32" using Cons.prems by simp
      show "\<forall>b \<in> set bufs. 0 < Len b" using Cons.prems by simp
      show "r - Len b < sum_list (map Len bufs)" using Cons.prems le by simp
    qed
    with rd le show ?thesis by simp
  qed
qed

subsection \<open>Beyond the end of the chunk\<close>

lemma Read_beyond_chunk:
  assumes "reader_of d = Some (w, dec)" "0 < chunkSize d" "chunkSize d < currentCount d"
    and "unat (currentCount d) + w < 2 ^ 32" "0 < Len b"
  shows "Read d b = Return (0, Some EOS, d\<lparr>currentCount := currentCount d + of_nat w\<rparr>, b)"
    and "chunkSize d < currentCount d + of_nat w"
proof -
  have lt: "unat (chunkSize d) < unat (currentCount d)"
    using assms(3) by (simp add: word_less_nat_alt)
  have u: "unat (currentCount d + of_nat w) = unat (currentCount d) + w"
    using assms(4) by (rule u32_add_no_wrap)
  have "sample_loop w dec d b 0
          = (0, Some EOS, d\<lparr>currentCount := currentCount d + of_nat w\<rparr>, b)"
    using assms lt by (intro sample_loop_eos) auto
  then show "Read d b = Return (0, Some EOS, d\<lparr>currentCount := currentCount d + of_nat w\<rparr>, b)"
    using assms by (simp add: Read_reader)
  show "chunkSize d < currentCount d + of_nat w"
    using lt u by (simp add: word_less_nat_alt)
qed

lemma poll_after_EOS:
  assumes "reader_of d = Some (w, dec)" "0 < chunkSize d" "chunkSize d < currentCount d"
    and "unat (currentCount d) + n * w < 2 ^ 32" "0 < Len b"
  shows "poll d b n = d\<lparr>currentCount := currentCount d + of_nat (n * w)\<rparr>"
  using assms
proof (induction n arbitrary: d)
  case 0
  then show ?case by simp
next
  case (Suc n)
  let ?d' = "d\<lparr>currentCount := currentCount d + of_nat w\<rparr>"
  have nw: "unat (currentCount d) + w < 2 ^ 32" using Suc.prems(4) by simp
  have step: "Read d b = Return (0, Some EOS, ?d', b) \<and> chunkSize d < currentCount d + of_nat w"
    using Read_beyond_chunk [OF Suc.prems(1,2,3) nw Suc.prems(5)] by simp
  have u: "unat (currentCount d + of_nat w) = unat (currentCount d) + w"
    using nw by (rule u32_add_no_wrap)
  have "poll ?d' b n = ?d'\<lparr>currentCount := currentCount ?d' + of_nat (n * w)\<rparr>"
  proof (rule Suc.IH)
    show "reader_of ?d' = Some (w, dec)"
      using Suc.prems(1) reader_of_cong [of ?d' d] by simp
    show "0 < chunkSize ?d'" using Suc.prems(2) by simp
    show "chunkSize ?d' < currentCount ?d'" using step by simp
    show "unat (currentCount ?d') + n * w < 2 ^ 32" using Suc.prems(4) u by simp
    show "0 < Len b" by fact
  qed
  with step show ?case by (simp add: algebra_simps)
qed

subsection \<open>Example buffers and decoders\<close>

lemma Len_buf8 [simp]: "Len (buf8 n) = n"
  by (simp add: buf8_def Len_def)

lemma avail_decoder_endless:
  "avail (rd decoder_endless) = replicate 4294967295 0x80 @ [0x7F]"
  by (simp add: decoder_endless_def avail_def endless_stream_def fmt_pcm8_def ascii_def)

lemma reader_of_decoder_endless: "reader_of decoder_endless = Some (1, decUint8)"
  by (simp add: reader_of_def decoder_endless_def wave_FORMAT_defs)

lemma Len_buf16 [simp]: "Len (buf16 n) = n"
  by (simp add: buf16_def Len_def)

lemma Len_cells_update [simp]: "Len (b\<lparr>cells := cs\<rparr>) = length cs"
  by (simp add: Len_def)

lemma length_cells_buf16 [simp]: "length (cells (buf16 n)) = n"
  by (simp add: buf16_def)

lemma cells_buf16_1: "cells (buf16 (Suc 0)) = [NatInt16 0]"
  by (simp add: buf16_def)

lemma cells_buf16_2: "cells (buf16 2) = [NatInt16 0, NatInt16 0]"
  by (simp add: buf16_def numeral_2_eq_2)

lemma kind_buf16 [simp]: "kind (buf16 n) = Int16K"
  by (simp add: buf16_def)

lemma reader_of_trailing: "reader_of (trailing_decoder cc p) = Some (2, decInt16)"
  by (simp add: reader_of_def trailing_decoder_def wave_FORMAT_defs)

lemma avail_trailing_44: "avail (rd (trailing_decoder cc 44)) = [1, 2] @ list_info"
  by (simp add: trailing_decoder_def trailing_source_def avail_def riff_header_def fmt_pcm16_def
      data_2_def ascii_def)

lemma avail_trailing_46: "avail (rd (trailing_decoder cc 46)) = list_info"
  by (simp add: trailing_decoder_def trailing_source_def avail_def riff_header_def fmt_pcm16_def
      data_2_def ascii_def)

subsection \<open>Sign extension\<close>

lemma bit_assemble24:
  "bit (assemble24 a b c) n \<longleftrightarrow>
     (n < 8 \<and> bit a n) \<or> (8 \<le> n \<and> n < 16 \<and> bit b (n - 8)) \<or> (16 \<le> n \<and> n < 24 \<and> bit c (n - 16))"
  by (auto simp: assemble24_def bit_or_iff bit_push_bit_iff bit_ucast_iff dest: bit_imp_le_length)

lemma and_single_bit:
  "(x :: 'a::len word) AND push_bit n 1 = (if bit x n then push_bit n 1 else 0)"
  by (rule bit_word_eqI) (auto simp: bit_and_iff bit_push_bit_iff bit_1_iff bit_exp_iff)

lemma test_bit23: "0 < sint ((x :: i32) AND 0x800000) \<longleftrightarrow> bit x 23"
  using and_single_bit [of x 23] by simp

lemma bit_not_mask24: "bit (NOT (mask 24) :: i32) n \<longleftrightarrow> 24 \<le> n \<and> n < 32"
  by (auto simp: bit_not_iff bit_mask_iff)

lemma int24_nth: "int24 s = int24 [s ! 0, s ! 1, s ! 2]"
  by (simp add: int24_def)

lemma int24_alt:
  "int24 [a, b, c] =
     (if bit (assemble24 a b c) 23 then assemble24 a b c OR NOT (mask 24) else assemble24 a b c)"
proof -
  have m: "NOT (mask 24) = (- 16777216 :: i32)" by (simp add: mask_eq_exp_minus_1)
  show ?thesis
    by (simp add: int24_def Let_def assemble24_def [symmetric] test_bit23 m)
qed

lemma bit_int24:
  "bit (int24 [a, b, c]) m \<longleftrightarrow> m < 32 \<and> bit (assemble24 a b c) (min 23 m)"
proof -
  consider "m < 23" | "m = 23" | "24 \<le> m" by arith
  then show ?thesis
    by cases (auto simp: int24_alt bit_or_iff bit_not_mask24 bit_assemble24 dest: bit_imp_le_length)
qed

lemma uint_assemble24:
  "uint (assemble24 a b c) = uint a + 256 * uint b + 65536 * uint c"
proof -
  have "uint (assemble24 a b c) = concat_bit 8 (uint a) (concat_bit 8 (uint b) (uint c))"
    by (rule bit_eqI) (auto simp: bit_uint_iff bit_assemble24 bit_concat_bit_iff dest: bit_imp_le_length)
  also have "\<dots> = uint a + 256 * uint b + 65536 * uint c"
    using uint_lt2p [of a] uint_lt2p [of b]
    by (simp add: concat_bit_eq take_bit_int_eq_self push_bit_eq_mult)
  finally show ?thesis .
qed

lemma sint_int24_signed_take_bit:
  "sint (int24 [a, b, c]) = signed_take_bit 23 (uint a + 256 * uint b + 65536 * uint c)"
  unfolding uint_assemble24 [symmetric]
  by (rule bit_eqI) (auto simp: bit_sint_iff bit_int24 bit_signed_take_bit_iff bit_uint_iff min_def bit_assemble24)

lemma sint_int24:
  "sint (int24 [a, b, c]) =
     (let v = uint a + 256 * uint b + 65536 * uint c in if v < 2 ^ 23 then v else v - 2 ^ 24)"
proof -
  have a: "0 \<le> uint a" "uint a < 256" using uint_lt2p [of a] by simp_all
  have b: "0 \<le> uint b" "uint b < 256" using uint_lt2p [of b] by simp_all
  have c: "0 \<le> uint c" "uint c < 256" using uint_lt2p [of c] by simp_all
  define v where "v = uint a + 256 * uint b + 65536 * uint c"
  have v: "0 \<le> v" "v < 2 ^ 24" using a b c by (simp_all add: v_def)
  have "signed_take_bit 23 v = take_bit 24 (v + 2 ^ 23) - 2 ^ 23"
    by (simp add: signed_take_bit_eq_take_bit_shift)
  also have "\<dots> = (if v < 2 ^ 23 then v else v - 2 ^ 24)"
  proof -
    have lo: "(v + 8388608) mod 16777216 = v + 8388608" if "v < 8388608"
      using v that by simp
    have hi: "(v + 8388608) mod 16777216 = v - 8388608" if "\<not> v < 8388608"
    proof -
      have "v + 8388608 = (v - 8388608) + 16777216" by arith
      then have "(v + 8388608) mod 16777216 = ((v - 8388608) + 16777216) mod 16777216"
        by (rule arg_cong)
      also have "\<dots> = (v - 8388608) mod 16777216" by (simp only: mod_add_self2)
      also have "\<dots> = v - 8388608" using v that by simp
      finally show ?thesis .
    qed
    show ?thesis using lo hi by (simp add: take_bit_eq_mod)
  qed
  finally show ?thesis by (simp add: sint_int24_signed_take_bit v_def Let_def)
qed

subsection \<open>The format chunk\<close>

lemma case_fmt_parsed:
  assumes "chunkSize d = 0" "avail (rd d) = c16 @ ext @ rest" "length c16 = 16"
    "length ext = fmt_ext_size z len"
  shows "case_fmt z d len =
     (if (c16_FormatTag c16, c16_BitsPerSample c16) \<in>
           {(wave_FORMAT_PCM, 8), (wave_FORMAT_PCM, 16), (wave_FORMAT_PCM, 24),
            (wave_FORMAT_PCM, 32), (wave_FORMAT_IEEE_FLOAT, 32), (wave_FORMAT_IEEE_FLOAT, 64),
            (wave_FORMAT_ALAW, 8), (wave_FORMAT_MULAW, 8)}
      then Inr ((consumed d (16 + length ext))
                  \<lparr>format := c16_FormatTag c16, bitsPerSample := c16_BitsPerSample c16,
                   config := Some \<lparr>Channels = unat (c16_Channels c16),
                                   SampleRate = unat (c16_SamplesPerSec c16)\<rparr>\<rparr>)
      else Inl ErrUnsupported)"
proof -
  let ?d1 = "consumed d 16"
  let ?d2 = "?d1\<lparr>bitsPerSample := c16_BitsPerSample c16\<rparr>"
  have 1: "bRead d 16 = (Inr c16, ?d1)"
    using assms bRead_header [of d c16 "ext @ rest" 16] by simp
  have av: "avail (rd ?d2) = ext @ rest" using assms by simp
  have cs: "chunkSize ?d2 = 0" using assms by simp
  have 2: "bRead ?d2 (length ext) = (Inr ext, consumed ?d2 (length ext))"
    using bRead_header [OF cs av refl] .
  have c: "consumed ?d2 (length ext) = (consumed d (16 + length ext))\<lparr>bitsPerSample := c16_BitsPerSample c16\<rparr>"
    using assms(1) by (simp add: consumed_def add.assoc)
  have e0: "length ext = 0 \<Longrightarrow> (consumed d (16 + length ext))\<lparr>bitsPerSample := c16_BitsPerSample c16\<rparr> = ?d2"
    by simp
  have ext: "(if len = 18 then bRead ?d2 (size_c18 z)
              else if len = 40 then bRead ?d2 (size_c40 z) else (Inr [], ?d2))
        = (Inr ext, (consumed d (16 + length ext))\<lparr>bitsPerSample := c16_BitsPerSample c16\<rparr>)"
    using 2 c assms(4) e0 by (auto simp: fmt_ext_size_def)
  show ?thesis
    unfolding case_fmt_def 1 Let_def prod.case sum.case ext
    by (auto simp: wave_FORMAT_defs)
qed

subsection \<open>Format and bit width of a constructed decoder\<close>

lemma advance_fields:
  "advance d sz = (e, d') \<Longrightarrow>
     format d' = format d \<and> bitsPerSample d' = bitsPerSample d \<and> config d' = config d"
  by (auto simp: advance_def Let_def split: if_splits)

lemma bRead_fields:
  "bRead d sz = (r, d') \<Longrightarrow>
     format d' = format d \<and> bitsPerSample d' = bitsPerSample d \<and> config d' = config d"
  by (auto simp: bRead_def split: prod.splits option.splits dest!: advance_fields)

lemma nextChunk_fields:
  "nextChunk d = (r, d') \<Longrightarrow>
     format d' = format d \<and> bitsPerSample d' = bitsPerSample d \<and> config d' = config d"
  by (auto simp: nextChunk_def split: prod.splits sum.splits dest!: bRead_fields)

lemma case_fmt_reader: "case_fmt z d len = Inr d' \<Longrightarrow> reader_of d' \<noteq> None"
  by (auto simp: case_fmt_def Let_def reader_of_def wave_FORMAT_defs
      split: prod.splits sum.splits if_splits dest!: bRead_fields)

lemma reader_of_fields:
  "format d' = format d \<and> bitsPerSample d' = bitsPerSample d \<and> config d' = config d
     \<Longrightarrow> (config d' \<noteq> None \<longrightarrow> reader_of d' \<noteq> None) = (config d \<noteq> None \<longrightarrow> reader_of d \<noteq> None)"
  by (simp add: reader_of_def)

lemma ident_neq:
  "ascii ''fmt '' \<noteq> ascii ''RIFF''"
  "ascii ''fact'' \<noteq> ascii ''RIFF''" "ascii ''fact'' \<noteq> ascii ''fmt ''"
  "ascii ''data'' \<noteq> ascii ''RIFF''" "ascii ''data'' \<noteq> ascii ''fmt ''"
  "ascii ''data'' \<noteq> ascii ''fact''"
  by (simp_all add: ascii_def)

lemma chunk_loop_reader:
  "chunk_loop z d = Inr d' \<Longrightarrow> (config d \<noteq> None \<longrightarrow> reader_of d \<noteq> None)
     \<Longrightarrow> config d' \<noteq> None \<longrightarrow> reader_of d' \<noteq> None"
proof (induction z d rule: chunk_loop.induct)
  case (1 z d)
  obtain r d1 where nc: "nextChunk d = (r, d1)" by force
  note unfold = chunk_loop.simps [of z d]
  from "1.prems"(1) nc obtain ident len where r: "r = Inr (ident, len)"
    by (auto simp: unfold split: sum.splits)
  have E: "(if ident = ascii ''RIFF'' then
            (case bRead d1 4 of
               (r, d2) \<Rightarrow>
                 if (case r of Inr fmt \<Rightarrow> fmt | Inl _ \<Rightarrow> [0, 0, 0, 0]) \<noteq> ascii ''WAVE''
                 then Inl ErrInvalidData
                 else chunk_loop z d2)
          else if ident = ascii ''fmt '' then
            (case case_fmt z d1 len of
               Inl err \<Rightarrow> Inl err
             | Inr d2 \<Rightarrow> chunk_loop z d2)
          else if ident = ascii ''fact'' then
            (case bRead d1 (size_fact z) of
               (Inl err, _) \<Rightarrow> Inl err
             | (Inr _, d2) \<Rightarrow> chunk_loop z d2)
          else if ident = ascii ''data'' then Inr (d1\<lparr>chunkSize := len\<rparr>)
          else chunk_loop z d1) = Inr d'"
    using "1.prems"(1) by (simp add: unfold nc r)
  have inv1: "config d1 \<noteq> None \<longrightarrow> reader_of d1 \<noteq> None"
    using nextChunk_fields [OF nc] "1.prems"(2) reader_of_fields [of d1 d] by simp
  consider (riff) "ident = ascii ''RIFF''"
    | (fmt) "ident \<noteq> ascii ''RIFF''" "ident = ascii ''fmt ''"
    | (fact) "ident \<noteq> ascii ''RIFF''" "ident \<noteq> ascii ''fmt ''" "ident = ascii ''fact''"
    | (data) "ident \<noteq> ascii ''RIFF''" "ident \<noteq> ascii ''fmt ''" "ident \<noteq> ascii ''fact''"
        "ident = ascii ''data''"
    | (other) "ident \<noteq> ascii ''RIFF''" "ident \<noteq> ascii ''fmt ''" "ident \<noteq> ascii ''fact''"
        "ident \<noteq> ascii ''data''"
    by blast
  then show ?case
  proof cases
    case riff
    obtain r2 d2 where br: "bRead d1 4 = (r2, d2)" by force
    from E have ok: "\<not> (case r2 of Inr fmt \<Rightarrow> fmt | Inl _ \<Rightarrow> [0, 0, 0, 0]) \<noteq> ascii ''WAVE''"
      and res: "chunk_loop z d2 = Inr d'"
      by (simp_all add: riff br split: if_splits)
    have inv2: "config d2 \<noteq> None \<longrightarrow> reader_of d2 \<noteq> None"
      using bRead_fields [OF br] inv1 reader_of_fields [of d2 d1] by simp
    show ?thesis
      using "1.IH"(1) [OF nc [symmetric] r refl riff br [symmetric] ok res inv2] .
  next
    case fmt
    from E obtain d2 where cf: "case_fmt z d1 len = Inr d2"
      and res: "chunk_loop z d2 = Inr d'"
      by (auto simp: fmt ident_neq split: sum.splits)
    have inv2: "config d2 \<noteq> None \<longrightarrow> reader_of d2 \<noteq> None"
      using case_fmt_reader [OF cf] by simp
    show ?thesis
      using "1.IH"(2) [OF nc [symmetric] r refl fmt cf res inv2] .
  next
    case fact
    obtain r2 d2 where br: "bRead d1 (size_fact z) = (r2, d2)" by force
    from E obtain x where r2: "r2 = Inr x" and res: "chunk_loop z d2 = Inr d'"
      by (auto simp: fact br ident_neq split: sum.splits)
    have inv2: "config d2 \<noteq> None \<longrightarrow> reader_of d2 \<noteq> None"
      using bRead_fields [OF br] inv1 reader_of_fields [of d2 d1] by simp
    show ?thesis
      using "1.IH"(3) [OF nc [symmetric] r refl fact br [symmetric] r2 res inv2] .
  next
    case data
    from E have "d' = d1\<lparr>chunkSize := len\<rparr>"
      by (simp add: data ident_neq)
    then show ?thesis using inv1 reader_of_cong [of d' d1] by simp
  next
    case other
    from E have res: "chunk_loop z d1 = Inr d'"
      by (simp add: other)
    show ?thesis
      using "1.IH"(4) [OF nc [symmetric] r refl other res inv1] .
  qed
qed

lemma newDecoder_reader:
  "newDecoder z r = Return (Inr d) \<Longrightarrow> config d \<noteq> None \<Longrightarrow> reader_of d \<noteq> None"
  using chunk_loop_reader [of z _ d]
  by (auto simp: newDecoder_def new_decoder_def split: reader_arg.splits)

lemma smallRead_fields:
  "smallRead d n = (r, d') \<Longrightarrow>
     format d' = format d \<and> bitsPerSample d' = bitsPerSample d \<and> config d' = config d"
  by (auto simp: smallRead_def split: prod.splits)

lemma sample_loop_fields:
  "sample_loop sz dec d b read = (n, e, d', b') \<Longrightarrow>
     format d' = format d \<and> bitsPerSample d' = bitsPerSample d \<and> config d' = config d"
proof (induction sz dec d b read rule: sample_loop.induct)
  case (1 sz dec d b read)
  note unfold = sample_loop.simps [of sz dec d b read]
  show ?case
  proof (cases "read < Len b")
    case False
    with "1.prems" show ?thesis by (simp add: unfold)
  next
    case True
    obtain e1 d1 where adv: "advance d sz = (e1, d1)" by force
    note f1 = advance_fields [OF adv]
    show ?thesis
    proof (cases e1)
      case (Some err)
      with "1.prems" True adv f1 show ?thesis by (simp add: unfold)
    next
      case None
      obtain r d2 where sr: "smallRead d1 sz = (r, d2)" by force
      note f2 = smallRead_fields [OF sr]
      show ?thesis
      proof (cases r)
        case (Inl err)
        with "1.prems" True adv None sr f1 f2 show ?thesis by (simp add: unfold)
      next
        case (Inr buf)
        with "1.prems" True adv None sr
        have "sample_loop sz dec d2 (b\<lparr>cells := (cells b)[read := dec (kind b) buf]\<rparr>) (read + 1)
            = (n, e, d', b')"
          by (simp add: unfold)
        from "1.IH" [OF True adv [symmetric] None sr [symmetric] Inr this] f1 f2
        show ?thesis by simp
      qed
    qed
  qed
qed


lemma Read_keeps_reader:
  assumes r: "Read d b = Return (n, e, d', b')"
  shows "reader_of d' = reader_of d"
proof (cases "Len b = 0")
  case True
  with r show ?thesis by (simp add: Read_def)
next
  case False
  then have pos: "0 < Len b" by simp
  show ?thesis
  proof (cases "reader_of d")
    case None
    then have "Read d b = Panic ''invalid bits per sample'' \<or> Read d b = Panic ''invalid format''"
      using pos by (rule Read_no_reader)
    then have False unfolding r by (elim disjE) (simp_all only: outcome.distinct)
    then show ?thesis ..
  next
    case (Some p)
    obtain w dec where p: "p = (w, dec)" by force
    have "Read d b = Return (sample_loop w dec d b 0)"
      using Some pos unfolding p by (rule Read_reader)
    with r have "sample_loop w dec d b 0 = (n, e, d', b')" by simp
    from sample_loop_fields [OF this] show ?thesis by (simp add: reader_of_cong [of d' d])
  qed
qed

subsection \<open>The data chunk marker\<close>





subsection \<open>The seek offset\<close>





subsection \<open>The data chunk marker after construction\<close>









subsection \<open>Seek on a constructed decoder\<close>





text \<open>
  The marker counts from where the reader stood at construction, while \<open>Seek\<close> hands
  the source an absolute offset: in the embedded container the samples start at byte 54,
  the marker is 44, and \<open>Seek\<close> to sample 0 moves the source to byte 44.
\<close>

lemma marker_counts_from_reader:
  "newDecoder spec_sizes (IsReader embedded_source) = Return (Inr (embedded_decoder 54)) \<and>
   Seek (embedded_decoder 54) 0 = (None, embedded_decoder 44)"
  by (simp add: eval_defs embedded_source_def embedded_decoder_def Seek_def seek_abs_def
      seek_target_def no_seek_error_def)

subsection \<open>Sequences of calls beyond the end of the chunk\<close>

lemma Seek_counters:
  "chunkSize (snd (Seek d i)) = chunkSize d" "currentCount (snd (Seek d i)) = currentCount d"
  "reader_of (snd (Seek d i)) = reader_of d"
proof -
  have f: "chunkSize (snd (Seek d i)) = chunkSize d \<and>
      currentCount (snd (Seek d i)) = currentCount d \<and>
      format (snd (Seek d i)) = format d \<and> bitsPerSample (snd (Seek d i)) = bitsPerSample d"
    by (simp add: Seek_def split: sum.splits)
  then show "chunkSize (snd (Seek d i)) = chunkSize d"
    "currentCount (snd (Seek d i)) = currentCount d"
    by simp_all
  show "reader_of (snd (Seek d i)) = reader_of d"
    using f reader_of_cong [of "snd (Seek d i)" d] by simp
qed

lemma after_calls_beyond_chunk:
  assumes "reader_of d = Some (w, dec)" "0 < chunkSize d" "chunkSize d < currentCount d"
    and "unat (currentCount d) + nonempty_reads cs * w < 2 ^ 32"
  shows "\<exists>d'. after_calls d cs = Return d' \<and> reader_of d' = Some (w, dec) \<and>
           chunkSize d' = chunkSize d \<and>
           currentCount d' = currentCount d + of_nat (nonempty_reads cs * w) \<and>
           chunkSize d' < currentCount d'"
  using assms
proof (induction cs arbitrary: d)
  case Nil
  then show ?case by simp
next
  case (Cons c cs)
  show ?case
  proof (cases c)
    case (SeekCall i)
    let ?d1 = "snd (Seek d i)"
    have "\<exists>d'. after_calls ?d1 cs = Return d' \<and> reader_of d' = Some (w, dec) \<and>
           chunkSize d' = chunkSize ?d1 \<and>
           currentCount d' = currentCount ?d1 + of_nat (nonempty_reads cs * w) \<and>
           chunkSize d' < currentCount d'"
      using Cons.prems by (intro Cons.IH) (simp_all add: Seek_counters SeekCall)
    then show ?thesis by (simp add: SeekCall Seek_counters)
  next
    case (ReadCall b)
    show ?thesis
    proof (cases "Len b = 0")
      case True
      have r: "Read d b = Return (0, None, d, b)" using True by (simp add: Read_def)
      have "\<exists>d'. after_calls d cs = Return d' \<and> reader_of d' = Some (w, dec) \<and>
           chunkSize d' = chunkSize d \<and>
           currentCount d' = currentCount d + of_nat (nonempty_reads cs * w) \<and>
           chunkSize d' < currentCount d'"
        using Cons.prems True by (intro Cons.IH) (simp_all add: ReadCall)
      then show ?thesis by (simp add: ReadCall r True)
    next
      case False
      then have len: "0 < Len b" by simp
      let ?d1 = "d\<lparr>currentCount := currentCount d + of_nat w\<rparr>"
      have bound: "unat (currentCount d) + w + nonempty_reads cs * w < 2 ^ 32"
        using Cons.prems(4) len by (simp add: ReadCall add.assoc)
      then have b1: "unat (currentCount d) + w < 2 ^ 32" by simp
      note rb = Read_beyond_chunk [OF Cons.prems(1-3) b1 len]
      have u: "unat (currentCount ?d1) = unat (currentCount d) + w"
        using b1 by (simp add: u32_add_no_wrap)
      have ro: "reader_of ?d1 = Some (w, dec)"
        using Cons.prems(1) reader_of_cong [of ?d1 d] by simp
      have "\<exists>d'. after_calls ?d1 cs = Return d' \<and> reader_of d' = Some (w, dec) \<and>
           chunkSize d' = chunkSize ?d1 \<and>
           currentCount d' = currentCount ?d1 + of_nat (nonempty_reads cs * w) \<and>
           chunkSize d' < currentCount d'"
      proof (rule Cons.IH [OF ro])
        show "0 < chunkSize ?d1" using Cons.prems(2) by simp
        show "chunkSize ?d1 < currentCount ?d1" using rb(2) by simp
        show "unat (currentCount ?d1) + nonempty_reads cs * w < 2 ^ 32"
          using bound by (simp only: u)
      qed
      then show ?thesis
        by (simp add: ReadCall rb(1) len add.assoc del: of_nat_mult)
    qed
  qed
qed

lemma Read_trailing_beyond:
  "unat cc + 2 < 2 ^ 32 \<Longrightarrow> 2 < cc \<Longrightarrow> 0 < n
     \<Longrightarrow> Read (trailing_decoder cc p) (buf16 n)
         = Return (0, Some EOS, trailing_decoder (cc + 2) p, buf16 n)"
  using Read_beyond_chunk(1) [OF reader_of_trailing, of cc p "buf16 n"]
  by (simp add: trailing_decoder_def)

subsection \<open>The chunk loop on the chunks of a container\<close>

lemma consumed_fmt_recorded:
  "consumed (fmt_recorded d c16 n) m = fmt_recorded d c16 (n + m)"
  by (simp add: fmt_recorded_def consumed_def add.assoc)

lemma fmt_recorded_simps [simp]:
  "chunkSize (fmt_recorded d c16 n) = chunkSize d"
  "rd (fmt_recorded d c16 n) = (rd d)\<lparr>pos := pos (rd d) + n\<rparr>"
  by (simp_all add: fmt_recorded_def)

lemma chunk_loop_fmt:
  assumes "chunkSize d = 0"
    and "avail (rd d) = ascii ''fmt '' @ lb @ c16 @ ext @ rest"
    and "length lb = 4" "length c16 = 16" "length ext = fmt_ext_size z (Uint32 lb)"
  shows "chunk_loop z d =
     (if (c16_FormatTag c16, c16_BitsPerSample c16) \<in> spec_supported
      then chunk_loop z (fmt_recorded d c16 (24 + length ext))
      else Inl ErrUnsupported)"
proof -
  let ?d1 = "consumed d 8"
  have nc: "nextChunk d = (Inr (ascii ''fmt '', Uint32 lb), ?d1)"
    using assms nextChunk_header [of d "ascii ''fmt ''" lb "c16 @ ext @ rest"] by simp
  have av: "avail (rd ?d1) = c16 @ ext @ rest" using assms by simp
  have cs: "chunkSize ?d1 = 0" using assms by simp
  have cf: "case_fmt z ?d1 (Uint32 lb) =
     (if (c16_FormatTag c16, c16_BitsPerSample c16) \<in> spec_supported
      then Inr (fmt_recorded ?d1 c16 (16 + length ext))
      else Inl ErrUnsupported)"
    unfolding spec_supported_def fmt_recorded_def
    using cs av assms(4,5) by (rule case_fmt_parsed)
  have neq: "ascii ''fmt '' \<noteq> ascii ''RIFF''" by (simp add: ascii_def)
  have c: "fmt_recorded ?d1 c16 (16 + length ext) = fmt_recorded d c16 (24 + length ext)"
    by (simp add: fmt_recorded_def consumed_consumed)
  show ?thesis
    by (subst chunk_loop.simps) (simp add: nc neq cf c)
qed

lemma chunk_loop_data:
  assumes "chunkSize d = 0" "take 4 (avail (rd d)) = ascii ''data''" "8 \<le> length (avail (rd d))"
  shows "chunk_loop z d
     = Inr ((consumed d 8)\<lparr>chunkSize := Uint32 (take 4 (drop 4 (avail (rd d))))\<rparr>)"
proof -
  let ?r = "avail (rd d)"
  have "?r = take 4 ?r @ drop 4 ?r" by simp
  also have "drop 4 ?r = take 4 (drop 4 ?r) @ drop 4 (drop 4 ?r)" by (simp only: append_take_drop_id)
  finally have split: "?r = ascii ''data'' @ take 4 (drop 4 ?r) @ drop 8 ?r"
    by (simp add: assms(2))
  have l: "length (take 4 (drop 4 ?r)) = 4" using assms(3) by simp
  have nc: "nextChunk d = (Inr (ascii ''data'', Uint32 (take 4 (drop 4 ?r))), consumed d 8)"
    using assms(1) split _ l by (rule nextChunk_header) simp
  show ?thesis
    by (subst chunk_loop.simps) (simp add: nc ident_neq)
qed

lemma chunk_loop_RIFF_WAVE:
  assumes "chunkSize d = 0" "avail (rd d) = ascii ''RIFF'' @ sz @ ascii ''WAVE'' @ rest"
    "length sz = 4"
  shows "chunk_loop z d = chunk_loop z (consumed d 12)"
proof -
  let ?d1 = "consumed d 8"
  have nc: "nextChunk d = (Inr (ascii ''RIFF'', Uint32 sz), ?d1)"
    using assms nextChunk_header [of d "ascii ''RIFF''" sz "ascii ''WAVE'' @ rest"] by simp
  have av: "avail (rd ?d1) = ascii ''WAVE'' @ rest" using assms by simp
  have cs: "chunkSize ?d1 = 0" using assms by simp
  have br: "bRead ?d1 4 = (Inr (ascii ''WAVE''), consumed ?d1 4)"
    using cs av by (rule bRead_header) simp
  show ?thesis
    by (subst chunk_loop.simps) (simp add: nc br consumed_consumed)
qed


section \<open>Construction\<close>

subsection \<open>The container signature\<close>

text \<open>
  C5, as the code has it. When the chunk identifier \<^verbatim>\<open>"RIFF"\<close> has been read with its
  length field and the next four bytes are not \<^verbatim>\<open>"WAVE"\<close> (or fewer than four bytes
  are left), \<open>newDecoder\<close> fails with \<open>ErrInvalidData\<close>. This is the second half of the
  claim; \<open>newDecoder\<close> itself does not look for \<^verbatim>\<open>"RIFF"\<close> at the start of the
  stream, which is what the counterexample below shows.
\<close>

theorem RIFF_without_WAVE_is_InvalidData:
  assumes "avail s = ascii ''RIFF'' @ lb @ rest" "length lb = 4" "take 4 rest \<noteq> ascii ''WAVE''"
  shows "newDecoder z (IsReader s) = Return (Inl ErrInvalidData)"
proof -
  let ?d = "new_decoder s"
  let ?d1 = "consumed ?d 8"
  have cs: "chunkSize ?d = 0" and rd: "rd ?d = s" by (simp_all add: new_decoder_def)
  have nc: "nextChunk ?d = (Inr (ascii ''RIFF'', Uint32 lb), ?d1)"
    using assms cs rd nextChunk_header [of ?d "ascii ''RIFF''" lb rest] by simp
  have av: "avail (rd ?d1) = rest"
    using assms rd by simp
  obtain r d2 where br: "bRead ?d1 4 = (r, d2)" by force
  have "(case r of Inr fmt \<Rightarrow> fmt | Inl _ \<Rightarrow> [0, 0, 0, 0]) \<noteq> ascii ''WAVE''"
  proof (cases "4 \<le> length rest")
    case True
    then have "bRead ?d1 4 = (Inr (take 4 rest), consumed ?d1 4)"
      using av cs bRead_header [of ?d1 "take 4 rest" "drop 4 rest" 4] by simp
    with br assms show ?thesis by auto
  next
    case False
    then obtain e d' where "bRead ?d1 4 = (Inl e, d')"
      using bRead_header_short [of ?d1 4] av cs by auto
    with br show ?thesis by (auto simp: ascii_def)
  qed
  then have "chunk_loop z ?d = Inl ErrInvalidData"
    by (subst chunk_loop.simps) (simp add: nc br)
  then show ?thesis by (simp add: newDecoder_def)
qed

theorem RIFF_without_WAVE_witness:
  "newDecoder spec_sizes (IsReader (from_bytes (ascii ''RIFF'' @ [4, 0, 0, 0] @ ascii ''WAVX'')))
     = Return (Inl ErrInvalidData)"
  using RIFF_without_WAVE_is_InvalidData
    [of "from_bytes (ascii ''RIFF'' @ [4, 0, 0, 0] @ ascii ''WAVX'')"
      "[4, 0, 0, 0]" "ascii ''WAVX''" spec_sizes]
  by (simp add: avail_def from_bytes_def ascii_def)

text \<open>
  C5, first half, fails: a stream that starts with a \<^verbatim>\<open>fmt \<close> chunk instead of
  \<^verbatim>\<open>"RIFF"\<close>, followed by a \<^verbatim>\<open>data\<close> chunk, is accepted, and \<open>newDecoder\<close> returns a
  decoder.
\<close>

theorem no_RIFF_magic_accepted:
  "take 4 (fmt_pcm16 @ data_2) \<noteq> ascii ''RIFF'' \<and>
   newDecoder spec_sizes (IsReader (from_bytes (fmt_pcm16 @ data_2))) = Return (Inr decoder_no_riff)"
  by (simp add: eval_defs decoder_no_riff_def)

subsection \<open>Supported formats\<close>

text \<open>
  C2. At any point of construction at which the next chunk is a complete \<^verbatim>\<open>fmt \<close>
  chunk (header, 16-byte record, and the extension record that goes with a length of 18
  or 40), the verdict depends on the pair of format tag and bit width alone. For the
  eight pairs of the table, PCM with 8, 16, 24 or 32 bits, IEEE float with 32 or 64 bits,
  A-law with 8 bits and mu-law with 8 bits, the chunk is accepted: the format is recorded
  and the loop goes on, and when the header of a \<^verbatim>\<open>data\<close> chunk is next, construction
  ends there and returns the decoder with this format, bit width and configuration and
  with the chunk size of that header. For every other pair, the tag \<^verbatim>\<open>0xFFFE\<close> with
  any bit width included, construction fails with \<open>ErrUnsupported\<close>, which is not
  \<open>ErrInvalidData\<close>. For a container that starts with \<^verbatim>\<open>"RIFF"\<close>, a length and
  \<^verbatim>\<open>"WAVE"\<close>, followed by such a \<^verbatim>\<open>fmt \<close> chunk, this is the result of \<open>newDecoder\<close>.
\<close>

theorem fmt_chunk_verdict:
  assumes "chunkSize d = 0"
    and "avail (rd d) = ascii ''fmt '' @ lb @ c16 @ ext @ rest"
    and "length lb = 4" "length c16 = 16" "length ext = fmt_ext_size z (Uint32 lb)"
  shows "chunk_loop z d =
     (if (c16_FormatTag c16, c16_BitsPerSample c16) \<in> spec_supported
      then (if take 4 rest = ascii ''data'' \<and> 8 \<le> length rest
            then Inr ((fmt_recorded d c16 (32 + length ext))
                        \<lparr>chunkSize := Uint32 (take 4 (drop 4 rest))\<rparr>)
            else chunk_loop z (fmt_recorded d c16 (24 + length ext)))
      else Inl ErrUnsupported) \<and>
   (c16_FormatTag c16 = wave_FORMAT_EXTENSIBLE
      \<longrightarrow> chunk_loop z d = Inl ErrUnsupported \<and> chunk_loop z d \<noteq> Inl ErrInvalidData) \<and>
   (d = consumed (new_decoder s) 12 \<and> length sz = 4 \<and>
    avail s = ascii ''RIFF'' @ sz @ ascii ''WAVE'' @ ascii ''fmt '' @ lb @ c16 @ ext @ rest
      \<longrightarrow> newDecoder z (IsReader s) = Return
           (if (c16_FormatTag c16, c16_BitsPerSample c16) \<in> spec_supported
            then (if take 4 rest = ascii ''data'' \<and> 8 \<le> length rest
                  then Inr ((fmt_recorded d c16 (32 + length ext))
                              \<lparr>chunkSize := Uint32 (take 4 (drop 4 rest))\<rparr>)
                  else chunk_loop z (fmt_recorded d c16 (24 + length ext)))
            else Inl ErrUnsupported))"
proof -
  let ?df = "fmt_recorded d c16 (24 + length ext)"
  let ?R = "if (c16_FormatTag c16, c16_BitsPerSample c16) \<in> spec_supported
      then (if take 4 rest = ascii ''data'' \<and> 8 \<le> length rest
            then Inr ((fmt_recorded d c16 (32 + length ext))
                        \<lparr>chunkSize := Uint32 (take 4 (drop 4 rest))\<rparr>)
            else chunk_loop z ?df)
      else Inl ErrUnsupported"
  have fmt: "chunk_loop z d =
     (if (c16_FormatTag c16, c16_BitsPerSample c16) \<in> spec_supported
      then chunk_loop z ?df else Inl ErrUnsupported)"
    using assms by (rule chunk_loop_fmt)
  have av: "avail (rd ?df) = rest" using assms by simp
  have cs: "chunkSize ?df = 0" using assms(1) by simp
  have data: "chunk_loop z ?df
      = Inr ((fmt_recorded d c16 (32 + length ext))\<lparr>chunkSize := Uint32 (take 4 (drop 4 rest))\<rparr>)"
    if "take 4 rest = ascii ''data'' \<and> 8 \<le> length rest"
  proof -
    have "chunk_loop z ?df
        = Inr ((consumed ?df 8)\<lparr>chunkSize := Uint32 (take 4 (drop 4 (avail (rd ?df))))\<rparr>)"
      using cs that by (intro chunk_loop_data) (simp_all only: av)
    also have "consumed ?df 8 = fmt_recorded d c16 (32 + length ext)"
      by (simp add: consumed_fmt_recorded)
    finally show ?thesis by (simp only: av)
  qed
  have 1: "chunk_loop z d = ?R"
    using fmt data by simp
  have 2: "chunk_loop z d = Inl ErrUnsupported \<and> chunk_loop z d \<noteq> Inl ErrInvalidData"
    if "c16_FormatTag c16 = wave_FORMAT_EXTENSIBLE"
    using fmt that by (simp add: spec_supported_def wave_FORMAT_defs)
  have 3: "newDecoder z (IsReader s) = Return ?R"
    if h: "d = consumed (new_decoder s) 12 \<and> length sz = 4 \<and>
      avail s = ascii ''RIFF'' @ sz @ ascii ''WAVE'' @ ascii ''fmt '' @ lb @ c16 @ ext @ rest"
  proof -
    have "chunk_loop z (new_decoder s) = chunk_loop z (consumed (new_decoder s) 12)"
      using h by (intro chunk_loop_RIFF_WAVE [of _ sz "ascii ''fmt '' @ lb @ c16 @ ext @ rest"])
        (simp_all add: new_decoder_def)
    then have "newDecoder z (IsReader s) = Return (chunk_loop z d)"
      using h by (simp add: newDecoder_def)
    then show ?thesis by (simp only: 1)
  qed
  show ?thesis
    apply (intro conjI)
      apply (rule 1)
     apply (rule impI, erule 2)
    apply (rule impI, erule 3)
    done
qed

theorem fmt_chunk_verdict_witness:
  "newDecoder spec_sizes (IsReader (from_bytes (riff_header 38 @ fmt_pcm16 @ data_2)))
     = Return (Inr decoder_pcm16) \<and>
   chunk_loop spec_sizes
       (consumed (new_decoder (from_bytes (riff_header 38 @ fmt_extensible @ data_2))) 12)
     = Inl ErrUnsupported \<and>
   newDecoder spec_sizes (IsReader (from_bytes (riff_header 38 @ fmt_extensible @ data_2)))
     = Return (Inl ErrUnsupported)"
proof -
  let ?s = "from_bytes (riff_header 38 @ fmt_pcm16 @ data_2)"
  let ?d = "consumed (new_decoder ?s) 12"
  let ?c16 = "[1, 0, 2, 0, 0x44, 0xAC, 0, 0, 0x10, 0xB1, 2, 0, 4, 0, 16, 0] :: u8 list"
  have sup: "(c16_FormatTag ?c16, c16_BitsPerSample ?c16) \<in> spec_supported"
    by (simp add: spec_supported_def c16_FormatTag_def c16_BitsPerSample_def Uint16_def
        wave_FORMAT_defs)
  have rec: "(fmt_recorded ?d ?c16 (32 + length ([] :: u8 list)))
               \<lparr>chunkSize := Uint32 (take 4 (drop 4 data_2))\<rparr> = decoder_pcm16"
    by (simp add: fmt_recorded_def consumed_def new_decoder_def from_bytes_def decoder_pcm16_def
        data_2_def ascii_def Uint32_def Uint16_def c16_FormatTag_def c16_BitsPerSample_def
        c16_Channels_def c16_SamplesPerSec_def)
  have d2: "take 4 data_2 = ascii ''data'' \<and> 8 \<le> length data_2"
    by (simp add: data_2_def)
  have h: "chunkSize ?d = 0" "avail (rd ?d) = ascii ''fmt '' @ [16, 0, 0, 0] @ ?c16 @ [] @ data_2"
    "length [16, 0, 0, 0 :: u8] = 4" "length ?c16 = 16"
    "length ([] :: u8 list) = fmt_ext_size spec_sizes (Uint32 [16, 0, 0, 0])"
    by (simp_all add: new_decoder_def from_bytes_def avail_def riff_header_def fmt_pcm16_def
        fmt_ext_size_def Uint32_def)
  have a: "?d = consumed (new_decoder ?s) 12 \<and> length [38, 0, 0, 0 :: u8] = 4 \<and>
      avail ?s = ascii ''RIFF'' @ [38, 0, 0, 0] @ ascii ''WAVE'' @ ascii ''fmt '' @ [16, 0, 0, 0]
        @ ?c16 @ [] @ data_2"
    by (simp add: from_bytes_def avail_def riff_header_def fmt_pcm16_def)
  have "newDecoder spec_sizes (IsReader ?s)
      = Return (Inr ((fmt_recorded ?d ?c16 (32 + length ([] :: u8 list)))
               \<lparr>chunkSize := Uint32 (take 4 (drop 4 data_2))\<rparr>))"
    using fmt_chunk_verdict [OF h, where s = ?s and sz = "[38, 0, 0, 0]",
        THEN conjunct2, THEN conjunct2, rule_format, OF a] sup d2
    by (simp only: if_True simp_thms)
  then have 1: "newDecoder spec_sizes (IsReader ?s) = Return (Inr decoder_pcm16)"
    by (simp only: rec)
  let ?s' = "from_bytes (riff_header 38 @ fmt_extensible @ data_2)"
  let ?d' = "consumed (new_decoder ?s') 12"
  let ?e16 = "[0xFE, 0xFF, 2, 0, 0x44, 0xAC, 0, 0, 0x10, 0xB1, 2, 0, 4, 0, 16, 0] :: u8 list"
  have nsup: "(c16_FormatTag ?e16, c16_BitsPerSample ?e16) \<notin> spec_supported"
    by (simp add: spec_supported_def c16_FormatTag_def c16_BitsPerSample_def Uint16_def
        wave_FORMAT_defs)
  have tag: "c16_FormatTag ?e16 = wave_FORMAT_EXTENSIBLE"
    by (simp add: c16_FormatTag_def Uint16_def wave_FORMAT_defs)
  have h': "chunkSize ?d' = 0"
    "avail (rd ?d') = ascii ''fmt '' @ [16, 0, 0, 0] @ ?e16 @ [] @ data_2"
    "length [16, 0, 0, 0 :: u8] = 4" "length ?e16 = 16"
    "length ([] :: u8 list) = fmt_ext_size spec_sizes (Uint32 [16, 0, 0, 0])"
    by (simp_all add: new_decoder_def from_bytes_def avail_def riff_header_def fmt_extensible_def
        fmt_ext_size_def Uint32_def)
  have a': "?d' = consumed (new_decoder ?s') 12 \<and> length [38, 0, 0, 0 :: u8] = 4 \<and>
      avail ?s' = ascii ''RIFF'' @ [38, 0, 0, 0] @ ascii ''WAVE'' @ ascii ''fmt '' @ [16, 0, 0, 0]
        @ ?e16 @ [] @ data_2"
    by (simp add: from_bytes_def avail_def riff_header_def fmt_extensible_def)
  note inst = fmt_chunk_verdict [OF h', where s = ?s' and sz = "[38, 0, 0, 0]"]
  have 2: "chunk_loop spec_sizes ?d' = Inl ErrUnsupported"
    using inst [THEN conjunct2, THEN conjunct1, rule_format, OF tag] by (rule conjunct1)
  have 3: "newDecoder spec_sizes (IsReader ?s') = Return (Inl ErrUnsupported)"
    using inst [THEN conjunct2, THEN conjunct2, rule_format, OF a'] nsup
    by (simp only: if_False simp_thms)
  show ?thesis using 1 2 3 by simp
qed

subsection \<open>A data chunk without a format chunk\<close>

text \<open>
  C4 at the container \<^verbatim>\<open>RIFF/WAVE\<close>, \<^verbatim>\<open>data\<close>: no \<^verbatim>\<open>fmt \<close> chunk was parsed, and
  \<open>newDecoder\<close> returns a decoder, with format 0 and no configuration.
\<close>

theorem data_before_fmt_returns_decoder:
  "newDecoder spec_sizes (IsReader (from_bytes (riff_header 14 @ data_2)))
     = Return (Inr decoder_no_fmt)"
  by (simp add: eval_defs decoder_no_fmt_def)

text \<open>
  C7 at the same container: the first \<open>Read\<close> into a buffer of one sample reaches
  the panic of the format dispatch. This is the only way to it: by \<open>newDecoder_reader\<close>
  a decoder whose construction has parsed a \<^verbatim>\<open>fmt \<close> chunk has a reader, and by
  \<open>Read_keeps_reader\<close> it keeps it.
\<close>

theorem Read_panics_after_data_before_fmt:
  "newDecoder spec_sizes (IsReader (from_bytes (riff_header 14 @ data_2)))
     = Return (Inr decoder_no_fmt) \<and>
   Read decoder_no_fmt \<lparr>kind = Int16K, cells = [NatInt16 0]\<rparr> = Panic ''invalid format''"
  by (simp add: eval_defs decoder_no_fmt_def Read_def Len_def)

subsection \<open>Chunks with another identifier\<close>

text \<open>
  C3 at a well-formed container with a \<^verbatim>\<open>LIST\<close> chunk between \<^verbatim>\<open>fmt \<close> and
  \<^verbatim>\<open>data\<close>: without the \<^verbatim>\<open>LIST\<close> chunk the container is decoded; with it, the
  payload of the chunk is taken for the next chunk header and construction fails with
  the error of a short read.
\<close>

theorem unknown_chunk_payload_not_skipped:
  "newDecoder spec_sizes (IsReader (from_bytes (riff_header 38 @ fmt_pcm16 @ data_2)))
     = Return (Inr decoder_pcm16) \<and>
   newDecoder spec_sizes (IsReader (from_bytes (riff_header 50 @ fmt_pcm16 @ list_info @ data_2)))
     = Return (Inl IoErrUnexpectedEOF)"
  by (simp add: eval_defs decoder_pcm16_def)

section \<open>Reading samples\<close>

subsection \<open>The empty buffer\<close>

text \<open>
  C9. \<open>Read\<close> with a buffer of length 0 returns 0 and no error, and neither the
  decoder (its cursor fields and its source included) nor the buffer changes.
\<close>

theorem Read_empty_buffer: "Len b = 0 \<Longrightarrow> Read d b = Return (0, None, d, b)"
  by (simp add: Read_def)

theorem Read_empty_buffer_witness:
  "Len \<lparr>kind = Int16K, cells = []\<rparr> = 0 \<and>
   Read decoder_pcm16 \<lparr>kind = Int16K, cells = []\<rparr>
     = Return (0, None, decoder_pcm16, \<lparr>kind = Int16K, cells = []\<rparr>)"
  using Read_empty_buffer [of "\<lparr>kind = Int16K, cells = []\<rparr>" decoder_pcm16]
  by (simp add: Len_def)

subsection \<open>24-bit samples\<close>

text \<open>
  C6. When \<open>readInt24\<close> fills a buffer (the source holds three bytes for every slot
  and the end of the chunk is not reached), slot \<open>i\<close> receives the value decoded from
  the three bytes \<open>s\<close> at offset \<open>3 * i\<close>: natively in an \<^verbatim>\<open>audio.Int32\<close> buffer,
  through the conversion to \<^verbatim>\<open>float64\<close> otherwise. The decoded 32-bit integer, read as
  signed, is the little-endian 24-bit number \<open>v\<close> of the three bytes when bit 23 is
  clear and \<open>v - 2 ^ 24\<close> when it is set, that is its two's-complement value; the bytes
  \<^verbatim>\<open>00 00 80\<close> give -8388608 and \<^verbatim>\<open>FF FF 7F\<close> give 8388607.
\<close>

theorem readInt24_sign_extends:
  assumes "Len b * 3 \<le> length (avail (rd d))"
    and "chunkSize d = 0 \<or> unat (currentCount d) + Len b * 3 \<le> unat (chunkSize d)"
    and "i < Len b"
    and "s = take 3 (drop (i * 3) (avail (rd d)))"
  shows "\<exists>d' b'. readInt24 d b = (Len b, None, d', b') \<and>
           cells b' ! i = (if kind b = Int32K then NatInt32 (int24 s)
                           else ViaSet (Int32ToFloat64 (int24 s))) \<and>
           sint (int24 s) =
             (let v = uint (s ! 0) + 256 * uint (s ! 1) + 65536 * uint (s ! 2)
              in if v < 2 ^ 23 then v else v - 2 ^ 24) \<and>
           (s = [0x00, 0x00, 0x80] \<longrightarrow> sint (int24 s) = - 8388608) \<and>
           (s = [0xFF, 0xFF, 0x7F] \<longrightarrow> sint (int24 s) = 8388607)"
proof -
  let ?b' = "b\<lparr>cells := stored decInt24 3 (kind b) (avail (rd d)) 0 (Len b) (cells b)\<rparr>"
  have run: "readInt24 d b = (Len b, None, consumed d (Len b * 3), ?b')"
    unfolding readInt24_def using assms(1,2) by (rule sample_loop_fill)
  have "cells ?b' ! (0 + i) = decInt24 (kind b) (take 3 (drop (i * 3) (avail (rd d))))"
    using assms(3) stored_nth [of i "Len b" 0 "cells b" decInt24 3 "kind b" "avail (rd d)"]
    by (simp add: Len_def)
  then have cell: "cells ?b' ! i = (if kind b = Int32K then NatInt32 (int24 s)
                           else ViaSet (Int32ToFloat64 (int24 s)))"
    by (simp add: assms(4) decInt24_def Let_def)
  have val: "sint (int24 s) =
             (let v = uint (s ! 0) + 256 * uint (s ! 1) + 65536 * uint (s ! 2)
              in if v < 2 ^ 23 then v else v - 2 ^ 24)"
    by (subst int24_nth) (rule sint_int24)
  have lo: "s = [0x00, 0x00, 0x80] \<longrightarrow> sint (int24 s) = - 8388608"
    by (auto simp: sint_int24)
  have hi: "s = [0xFF, 0xFF, 0x7F] \<longrightarrow> sint (int24 s) = 8388607"
    by (auto simp: sint_int24)
  show ?thesis using run cell val lo hi by blast
qed

theorem readInt24_sign_extends_witness:
  "\<exists>d' b'. readInt24 decoder_pcm24 (buf32 2) = (2, None, d', b') \<and>
     cells b' ! 1 = NatInt32 (int24 [0xFF, 0xFF, 0x7F]) \<and>
     sint (int24 [0xFF, 0xFF, 0x7F]) = 8388607"
proof -
  have av: "avail (rd decoder_pcm24) = [0x00, 0x00, 0x80, 0xFF, 0xFF, 0x7F]"
    by (simp add: decoder_pcm24_def from_bytes_def avail_def)
  have len: "Len (buf32 2) = 2" and k: "kind (buf32 2) = Int32K"
    by (simp_all add: buf32_def Len_def)
  have pre: "Len (buf32 2) * 3 \<le> length (avail (rd decoder_pcm24))"
    "chunkSize decoder_pcm24 = 0 \<or>
       unat (currentCount decoder_pcm24) + Len (buf32 2) * 3 \<le> unat (chunkSize decoder_pcm24)"
    by (simp_all add: av len) (simp add: decoder_pcm24_def)
  have s1: "[0xFF, 0xFF, 0x7F] = take 3 (drop (1 * 3) (avail (rd decoder_pcm24)))"
    by (simp add: av)
  have i1: "1 < Len (buf32 2)" by (simp add: len)
  from readInt24_sign_extends [OF pre i1 s1]
  show ?thesis by (simp add: len k)
qed

subsection \<open>The end of the data chunk\<close>

text \<open>
  C1, with the condition under which it holds. A decoder whose chunk size is known and
  is \<open>k\<close> samples of the width \<open>w\<close> of its reader, with \<open>c\<close> of them already read
  (\<open>c = 0\<close> after construction) and the bytes of the other \<open>k - c\<close> in the source:
  provided that \<open>k * w + w\<close> is below \<open>2 ^ 32\<close>, so that the 32-bit byte counter does
  not wrap on the advance past the end, calls of \<open>Read\<close> with non-empty buffers that
  together hold more than \<open>k - c\<close> slots return \<open>k - c\<close> samples in total and end with
  \<open>EOS\<close>; and a call whose buffer is longer than what is left returns \<open>EOS\<close> together
  with the count \<open>k - c\<close> of the samples it has stored, having consumed exactly their
  bytes.
\<close>

theorem Read_returns_declared_samples:
  assumes "reader_of d = Some (w, dec)"
    and "chunkSize d = of_nat (k * w)" "0 < k" "k * w + w < 2 ^ 32"
    and "currentCount d = of_nat (c * w)" "c \<le> k"
    and "(k - c) * w \<le> length (avail (rd d))"
    and "\<forall>b \<in> set bufs. 0 < Len b" "k - c < sum_list (map Len bufs)"
  shows "read_calls d bufs 0 = Return (k - c, Some EOS) \<and>
         (\<forall>b. k - c < Len b \<longrightarrow>
            (\<exists>d' b'. Read d b = Return (k - c, Some EOS, d', b') \<and>
               avail (rd d') = drop ((k - c) * w) (avail (rd d)) \<and>
               (\<forall>i < k - c. cells b' ! i = dec (kind b) (take w (drop (i * w) (avail (rd d)))))))"
proof -
  have w: "0 < w" using assms(1) reader_of_width by blast
  have kw: "k * w < 2 ^ 32" using assms(4) by simp
  have cw: "c * w \<le> k * w" using assms(6) by simp
  have ucs: "unat (chunkSize d) = k * w"
    using kw by (simp add: assms(2) unat_of_nat del: of_nat_mult)
  have "c * w < 2 ^ 32" using kw cw by (rule le_less_trans [rotated])
  then have ucc: "unat (currentCount d) = c * w"
    by (simp add: assms(5) unat_of_nat del: of_nat_mult)
  have pos: "0 < chunkSize d"
    using ucs w assms(3) by (simp add: word_less_nat_alt)
  have split: "c * w + (k - c) * w = k * w"
    using assms(6) by (simp flip: add_mult_distrib)
  have inv: "unat (currentCount d) + (k - c) * w = unat (chunkSize d)"
    using ucs ucc split by simp
  have nw: "unat (chunkSize d) + w < 2 ^ 32" using ucs assms(4) by simp
  have total: "read_calls d bufs 0 = Return (0 + (k - c), Some EOS)"
    using assms(1) pos inv assms(7) nw assms(8,9) by (rule read_calls_remaining)
  have one: "\<exists>d' b'. Read d b = Return (k - c, Some EOS, d', b') \<and>
               avail (rd d') = drop ((k - c) * w) (avail (rd d)) \<and>
               (\<forall>i < k - c. cells b' ! i = dec (kind b) (take w (drop (i * w) (avail (rd d)))))"
    if "k - c < Len b" for b
  proof -
    have "Read d b = Return (k - c, Some EOS,
           (consumed d ((k - c) * w))\<lparr>currentCount := chunkSize d + of_nat w\<rparr>,
           b\<lparr>cells := stored dec w (kind b) (avail (rd d)) 0 (k - c) (cells b)\<rparr>)"
      using assms(1) that pos inv assms(7) nw by (rule Read_boundary)
    moreover have "stored dec w (kind b) (avail (rd d)) 0 (k - c) (cells b) ! i
        = dec (kind b) (take w (drop (i * w) (avail (rd d))))" if "i < k - c" for i
      using stored_nth [of i "k - c" 0 "cells b" dec w "kind b" "avail (rd d)"] that \<open>k - c < Len b\<close>
      by (simp add: Len_def)
    ultimately show ?thesis by simp
  qed
  show ?thesis using total one by simp
qed

theorem Read_returns_declared_samples_witness:
  "read_calls decoder_pcm16 [buf16 2] 0 = Return (1, Some EOS)"
  using Read_returns_declared_samples [of decoder_pcm16 2 decInt16 1 0 "[buf16 2]"]
  by (simp add: reader_of_def decoder_pcm16_def wave_FORMAT_defs avail_def riff_header_def
      fmt_pcm16_def data_2_def ascii_def buf16_def Len_def)

text \<open>
  C1 without the condition fails. The container \<open>endless_stream\<close> declares
  4294967295 samples of one byte. After they have all been returned, the advance for
  the next sample wraps the counter to 0, which is not larger than the chunk size: the
  next call returns one more sample and no \<open>EOS\<close>.
\<close>

theorem cursor_wraps_at_chunk_end:
  "newDecoder spec_sizes (IsReader (from_bytes endless_stream)) = Return (Inr decoder_endless) \<and>
   read_calls decoder_endless [buf8 4294967295, buf8 1] 0 = Return (4294967296, None)"
proof -
  have new: "newDecoder spec_sizes (IsReader (from_bytes endless_stream))
      = Return (Inr decoder_endless)"
    by (simp add: eval_defs endless_stream_def fmt_pcm8_def decoder_endless_def)
  let ?d1 = "consumed decoder_endless (Len (buf8 4294967295) * 1)"
  have len: "Len (buf8 4294967295) = 4294967295" "Len (buf8 1) = 1"
    by simp_all
  have first: "Read decoder_endless (buf8 4294967295)
      = Return (Len (buf8 4294967295), None, ?d1,
          (buf8 4294967295)\<lparr>cells := stored decUint8 1 (kind (buf8 4294967295))
             (avail (rd decoder_endless)) 0 (Len (buf8 4294967295)) (cells (buf8 4294967295))\<rparr>)"
    by (rule Read_within [where r = 4294967295])
      (simp_all add: reader_of_decoder_endless len avail_decoder_endless, simp_all add: decoder_endless_def)
  have d1: "?d1 = decoder_endless\<lparr>currentCount := 0xFFFFFFFF,
      rd := \<lparr>content = endless_stream, pos = 4294967339, seekable = True,
       seek_error = no_seek_error\<rparr>\<rparr>"
    by (simp add: consumed_def len decoder_endless_def)
  have av: "avail \<lparr>content = endless_stream, pos = 4294967339, seekable = True,
       seek_error = no_seek_error\<rparr> = [0x7F]"
    by (simp add: avail_def endless_stream_def fmt_pcm8_def ascii_def)
  have "\<exists>d' b'. sample_loop 1 decUint8 ?d1 (buf8 1) 0 = (1, None, d', b')"
    unfolding d1
    apply (subst sample_loop.simps)
    apply (simp add: len advance_def smallRead_def readFull_def av decoder_endless_def Let_def)
    apply (subst sample_loop.simps)
    apply (simp add: Len_def buf8_def)
    done
  moreover have "reader_of ?d1 = Some (1, decUint8)"
    using reader_of_decoder_endless reader_of_cong [of ?d1 decoder_endless] by simp
  then have "Read ?d1 (buf8 1) = Return (sample_loop 1 decUint8 ?d1 (buf8 1) 0)"
    by (rule Read_reader) (simp add: len)
  ultimately have second: "\<exists>d' b'. Read ?d1 (buf8 1) = Return (1, None, d', b')"
    by simp
  show ?thesis
    using new first second by (auto simp: len)
qed

subsection \<open>After the end of the stream\<close>

text \<open>
  C10, with the condition under which it holds. Take a decoder with a known chunk size
  whose counter is beyond the chunk size, as it is once \<open>Read\<close> has returned \<open>EOS\<close>, and
  any sequence of later calls of \<open>Read\<close> and \<open>Seek\<close>. Every call of \<open>Read\<close> with a
  non-empty buffer adds the sample width to the counter. As long as the counter has not
  wrapped, that is, as long as the widths added by these calls, the next one included,
  keep it below \<open>2 ^ 32\<close>: all the calls return, the chunk size is unchanged, the counter
  has grown by one width for each call of \<open>Read\<close> with a non-empty buffer and is still
  beyond the chunk size, and the next \<open>Read\<close> with a non-empty buffer returns 0 samples
  and \<open>EOS\<close>, leaves source and buffer as they are, and leaves the counter beyond the
  chunk size. So the claim holds until the first call on which the counter wraps.
\<close>

theorem EOS_repeats_until_wrap:
  assumes "reader_of d = Some (w, dec)" "0 < chunkSize d" "chunkSize d < currentCount d"
    and "unat (currentCount d) + (nonempty_reads cs + 1) * w < 2 ^ 32" "0 < Len b"
  shows "\<exists>d'. after_calls d cs = Return d' \<and>
           chunkSize d' = chunkSize d \<and>
           currentCount d' = currentCount d + of_nat (nonempty_reads cs * w) \<and>
           chunkSize d' < currentCount d' \<and>
           Read d' b = Return (0, Some EOS, d'\<lparr>currentCount := currentCount d' + of_nat w\<rparr>, b) \<and>
           chunkSize d' < currentCount d' + of_nat w"
proof -
  have bound: "unat (currentCount d) + nonempty_reads cs * w + w < 2 ^ 32"
    using assms(4) by (simp add: add.assoc)
  then have "unat (currentCount d) + nonempty_reads cs * w < 2 ^ 32" by simp
  from after_calls_beyond_chunk [OF assms(1-3) this]
  obtain d' where d': "after_calls d cs = Return d'" "reader_of d' = Some (w, dec)"
    "chunkSize d' = chunkSize d"
    "currentCount d' = currentCount d + of_nat (nonempty_reads cs * w)"
    "chunkSize d' < currentCount d'"
    by blast
  have "unat (currentCount d') = unat (currentCount d) + nonempty_reads cs * w"
    using bound unfolding d'(4) by (intro u32_add_no_wrap) simp
  then have b: "unat (currentCount d') + w < 2 ^ 32" using bound by simp
  have cs: "0 < chunkSize d'" using assms(2) d'(3) by simp
  note rb = Read_beyond_chunk [OF d'(2) cs d'(5) b assms(5)]
  show ?thesis using d' rb by blast
qed

theorem EOS_repeats_until_wrap_witness:
  "after_calls (trailing_decoder 4 46)
       [ReadCall (buf16 1), SeekCall 1, ReadCall (buf16 0), ReadCall (buf16 2)]
     = Return (trailing_decoder 8 46) \<and>
   chunkSize (trailing_decoder 8 46) < currentCount (trailing_decoder 8 46) \<and>
   Read (trailing_decoder 8 46) (buf16 1)
     = Return (0, Some EOS, trailing_decoder 10 46, buf16 1)"
proof -
  let ?cs = "[ReadCall (buf16 1), SeekCall 1, ReadCall (buf16 0), ReadCall (buf16 2)]"
  have 1: "Read (trailing_decoder 4 46) (buf16 1)
      = Return (0, Some EOS, trailing_decoder 6 46, buf16 1)"
    using Read_trailing_beyond [of 4 1 46] by simp
  have 2: "snd (Seek (trailing_decoder 6 46) 1) = trailing_decoder 6 46"
    by (simp add: Seek_def seek_abs_def seek_target_def trailing_decoder_def trailing_source_def
        no_seek_error_def)
  have 3: "Read (trailing_decoder 6 46) (buf16 0) = Return (0, None, trailing_decoder 6 46, buf16 0)"
    by (simp add: Read_def)
  have 4: "Read (trailing_decoder 6 46) (buf16 2)
      = Return (0, Some EOS, trailing_decoder 8 46, buf16 2)"
    using Read_trailing_beyond [of 6 2 46] by simp
  have run: "after_calls (trailing_decoder 4 46) ?cs = Return (trailing_decoder 8 46)"
    by (simp add: 1 2 3 4 del: One_nat_def)
  have n: "nonempty_reads ?cs = 2" by simp
  have h: "0 < chunkSize (trailing_decoder 4 46)"
    "chunkSize (trailing_decoder 4 46) < currentCount (trailing_decoder 4 46)"
    "unat (currentCount (trailing_decoder 4 46)) + (nonempty_reads ?cs + 1) * 2 < 2 ^ 32"
    "0 < Len (buf16 1)"
    unfolding n by (simp_all add: trailing_decoder_def)
  from EOS_repeats_until_wrap [OF reader_of_trailing h]
  obtain d' where d': "after_calls (trailing_decoder 4 46) ?cs = Return d'"
    "chunkSize d' < currentCount d'"
    "Read d' (buf16 1) = Return (0, Some EOS, d'\<lparr>currentCount := currentCount d' + of_nat 2\<rparr>, buf16 1)"
    by blast
  have eq: "d' = trailing_decoder 8 46" using d'(1) run by simp
  have "(trailing_decoder 8 46)\<lparr>currentCount := currentCount (trailing_decoder 8 46) + of_nat 2\<rparr>
      = trailing_decoder 10 46"
    by (simp add: trailing_decoder_def)
  then show ?thesis using run d'(2,3) unfolding eq by simp
qed

text \<open>
  C10 without the condition fails. The decoder of \<open>trailing_source\<close> returns its
  one sample and \<open>EOS\<close>, the counter being 4, beyond the chunk size 2. Each later call
  adds 2 to the counter. After 2147483645 such calls the counter is \<^verbatim>\<open>0xFFFFFFFE\<close>; the
  next call wraps it to 0, which is not beyond the chunk size, so the call reads the two
  bytes \<^verbatim>\<open>"LI"\<close> of the following chunk and returns them as a sample, without \<open>EOS\<close>.
\<close>

theorem EOS_lost_after_wrap:
  "newDecoder spec_sizes (IsReader (from_bytes (riff_header 50 @ fmt_pcm16 @ data_2 @ list_info)))
     = Return (Inr (trailing_decoder 0 44)) \<and>
   Read (trailing_decoder 0 44) (buf16 2)
     = Return (1, Some EOS, trailing_decoder 4 46,
         (buf16 2)\<lparr>cells := [NatInt16 0x0201, NatInt16 0]\<rparr>) \<and>
   poll (trailing_decoder 4 46) (buf16 1) 2147483645 = trailing_decoder 0xFFFFFFFE 46 \<and>
   Read (trailing_decoder 0xFFFFFFFE 46) (buf16 1)
     = Return (1, None, trailing_decoder 0 48, (buf16 1)\<lparr>cells := [NatInt16 0x494C]\<rparr>)"
proof -
  have new: "newDecoder spec_sizes
       (IsReader (from_bytes (riff_header 50 @ fmt_pcm16 @ data_2 @ list_info)))
     = Return (Inr (trailing_decoder 0 44))"
    by (simp add: eval_defs trailing_decoder_def trailing_source_def)
  have "Read (trailing_decoder 0 44) (buf16 2) = Return (1, Some EOS,
           (consumed (trailing_decoder 0 44) (1 * 2))
             \<lparr>currentCount := chunkSize (trailing_decoder 0 44) + of_nat 2\<rparr>,
           (buf16 2)\<lparr>cells := stored decInt16 2 (kind (buf16 2))
              (avail (rd (trailing_decoder 0 44))) 0 1 (cells (buf16 2))\<rparr>)"
    by (rule Read_boundary [OF reader_of_trailing])
      (simp_all add: avail_trailing_44, simp_all add: trailing_decoder_def)
  also have "(consumed (trailing_decoder 0 44) (1 * 2))
             \<lparr>currentCount := chunkSize (trailing_decoder 0 44) + of_nat 2\<rparr> = trailing_decoder 4 46"
    by (simp add: consumed_def trailing_decoder_def trailing_source_def)
  also have "stored decInt16 2 (kind (buf16 2)) (avail (rd (trailing_decoder 0 44))) 0 1
        (cells (buf16 2)) = [NatInt16 0x0201, NatInt16 0]"
    by (simp add: avail_trailing_44 cells_buf16_2 decInt16_def Uint16_def)
  finally have first: "Read (trailing_decoder 0 44) (buf16 2)
      = Return (1, Some EOS, trailing_decoder 4 46, (buf16 2)\<lparr>cells := [NatInt16 0x0201, NatInt16 0]\<rparr>)" .
  have "poll (trailing_decoder 4 46) (buf16 1) 2147483645
      = (trailing_decoder 4 46)\<lparr>currentCount :=
           currentCount (trailing_decoder 4 46) + of_nat (2147483645 * 2)\<rparr>"
    by (rule poll_after_EOS [OF reader_of_trailing]) (simp_all add: trailing_decoder_def)
  also have "\<dots> = trailing_decoder 0xFFFFFFFE 46"
    by (simp add: trailing_decoder_def)
  finally have polled:
    "poll (trailing_decoder 4 46) (buf16 1) 2147483645 = trailing_decoder 0xFFFFFFFE 46" .
  let ?dw = "trailing_decoder 0xFFFFFFFE 46"
  let ?b' = "(buf16 1)\<lparr>cells := (cells (buf16 1))[0 := decInt16 (kind (buf16 1)) (take 2 (avail (rd ?dw)))]\<rparr>"
  have "sample_loop 2 decInt16 ?dw (buf16 1) 0 = sample_loop 2 decInt16 (consumed ?dw 2) ?b' (0 + 1)"
    by (rule sample_loop_step_word)
      (simp_all add: avail_trailing_46 list_info_def, simp_all add: trailing_decoder_def)
  also have "\<dots> = (1, None, consumed ?dw 2, ?b')"
    by (simp add: sample_loop_done)
  also have "consumed ?dw 2 = trailing_decoder 0 48"
    by (simp add: consumed_def trailing_decoder_def trailing_source_def)
  also have "?b' = (buf16 1)\<lparr>cells := [NatInt16 0x494C]\<rparr>"
    by (simp add: avail_trailing_46 cells_buf16_1 list_info_def ascii_def decInt16_def Uint16_def)
  finally have "sample_loop 2 decInt16 ?dw (buf16 1) 0
      = (1, None, trailing_decoder 0 48, (buf16 1)\<lparr>cells := [NatInt16 0x494C]\<rparr>)" .
  moreover have "Read ?dw (buf16 1) = Return (sample_loop 2 decInt16 ?dw (buf16 1) 0)"
    by (rule Read_reader [OF reader_of_trailing]) simp
  ultimately have last: "Read ?dw (buf16 1)
      = Return (1, None, trailing_decoder 0 48, (buf16 1)\<lparr>cells := [NatInt16 0x494C]\<rparr>)"
    by simp
  show ?thesis using new first polled last by simp
qed

section \<open>Seeking\<close>




end
